theory Spec2Isabelle
  imports
    Main
    "HOL-Library.Word"
    "HOL-Library.Sublist"
    "HOL-Library.Char_ord"
    "HOL-Library.List_Lexorder"
    "HOL-Library.Product_Lexorder"
begin

unbundle bit_operations_syntax

chapter \<open>cam-recorder: recording supervision, frame demuxing, retention\<close>

section \<open>Basic types\<close>

type_synonym byte = "8 word"

text \<open>An instant (Go's \<open>time.Time\<close>) is a count of seconds since the Unix epoch, a
  \<open>time.Duration\<close> a count of nanoseconds, as in Go.\<close>

type_synonym Time = int
type_synonym Duration = int

definition Second :: Duration where
  "Second = 1000000000"

text \<open>The message of an error of the operating system or of the child process.\<close>

type_synonym os_error = string

text \<open>The errors the packages build with \<open>fmt.Errorf\<close>; each constructor stands for one
  format string of the source.\<close>

datatype error =
    AlreadyRunning                 \<comment> \<open>\<open>recorder already running\<close>\<close>
  | IOFailure os_error             \<comment> \<open>\<open>failed to create output directory: %w\<close>\<close>
  | RuntimeFailure os_error        \<comment> \<open>\<open>ffmpeg error: %w\<close>\<close>
  | AlreadyExists string           \<comment> \<open>\<open>camera %s already exists\<close>\<close>
  | NotFound string                \<comment> \<open>\<open>camera %s not found\<close>\<close>
  | StartFailed string error       \<comment> \<open>\<open>failed to start recorder for %s: %w\<close>\<close>
  | StreamerAlreadyRunning         \<comment> \<open>\<open>streamer already running\<close>\<close>
  | PipeFailure os_error           \<comment> \<open>\<open>failed to create stdout pipe: %w\<close>\<close>
  | LaunchFailure os_error         \<comment> \<open>\<open>failed to start ffmpeg: %w\<close>\<close>

text \<open>A run-time panic of Go: closing a channel that is closed already.\<close>

datatype panic = CloseOfClosedChannel

text \<open>\<open>ctx.Err()\<close>: nil while the context is live.\<close>

datatype ctx_err = CtxLive | Canceled | DeadlineExceeded

record RecordingConfig =
  SegmentDuration :: Duration
  RetentionDays :: int
  OutputDir :: string
  Format :: string

section \<open>Strings, paths and the timestamp format\<close>

text \<open>\<open>strings.ReplaceAll(s, " ", "_")\<close>.\<close>

definition safe_name :: "string \<Rightarrow> string" where
  "safe_name s = map (\<lambda>c. if c = CHR '' '' then CHR ''_'' else c) s"

subsection \<open>\<open>filepath.Join\<close> and \<open>filepath.Clean\<close> on a Unix system\<close>

text \<open>The elements of a path between its slashes; a doubled, leading or trailing slash
  gives an empty element.\<close>

fun split_slash :: "string \<Rightarrow> string list" where
  "split_slash [] = [[]]"
| "split_slash (c # cs) =
     (case split_slash cs of
        [] \<Rightarrow> [[c]]
      | e # es \<Rightarrow> if c = CHR ''/'' then [] # e # es else (c # e) # es)"

fun join_slash :: "string list \<Rightarrow> string" where
  "join_slash [] = []"
| "join_slash [x] = x"
| "join_slash (x # y # ys) = x @ ''/'' @ join_slash (y # ys)"

text \<open>\<open>Clean\<close> reads the elements from the left and keeps those of the result, the last
  one first: an empty element and \<open>.\<close> are dropped; \<open>..\<close> removes the element before it,
  unless there is none or it is \<open>..\<close> itself, and then \<open>..\<close> is dropped at the root of a
  rooted path and kept otherwise.\<close>

definition clean_step :: "bool \<Rightarrow> string list \<Rightarrow> string \<Rightarrow> string list" where
  "clean_step rooted kept e =
     (if e = [] \<or> e = ''.'' then kept
      else if e = ''..'' then
        (case kept of
           [] \<Rightarrow> if rooted then [] else [''..'']
         | e' # below \<Rightarrow> if e' = ''..'' then ''..'' # kept else below)
      else e # kept)"

definition Clean :: "string \<Rightarrow> string" where
  "Clean path =
     (let rooted = (path \<noteq> [] \<and> hd path = CHR ''/'');
          kept = foldl (clean_step rooted) [] (split_slash path);
          out = (if rooted then ''/'' else []) @ join_slash (rev kept)
      in if out = [] then ''.'' else out)"

text \<open>\<open>filepath.Join\<close> of two elements: from the first element that is not empty on, the
  elements are joined by slashes and the result is cleaned; if both are empty the result
  is empty.\<close>

definition filepath_Join :: "string \<Rightarrow> string \<Rightarrow> string" where
  "filepath_Join a b =
     (if a \<noteq> [] then Clean (a @ ''/'' @ b)
      else if b \<noteq> [] then Clean b
      else [])"

subsection \<open>Printing integers\<close>

text \<open>Decimal digits of a natural number, most significant first.\<close>

definition digit_char :: "nat \<Rightarrow> char" where
  "digit_char d = char_of (48 + d)"

fun digits :: "nat \<Rightarrow> string" where
  "digits n = (if n < 10 then [digit_char n] else digits (n div 10) @ [digit_char (n mod 10)])"

declare digits.simps [simp del]

text \<open>Decimal, padded with zeros on the left to at least the given width.\<close>

definition pad_nat :: "nat \<Rightarrow> nat \<Rightarrow> string" where
  "pad_nat x width = replicate (width - length (digits x)) (CHR ''0'') @ digits x"

text \<open>The time package's \<open>appendInt\<close>: a minus sign for a negative value, then the
  magnitude padded to the width.\<close>

definition appendInt :: "int \<Rightarrow> nat \<Rightarrow> string" where
  "appendInt x width = (if x < 0 then ''-'' @ pad_nat (nat (- x)) width else pad_nat (nat x) width)"

text \<open>\<open>fmt.Sprintf("%d", n)\<close>.\<close>

definition sprint_d :: "int \<Rightarrow> string" where
  "sprint_d n = (if n < 0 then ''-'' @ digits (nat (- n)) else digits (nat n))"

subsection \<open>The calendar and the wall clock\<close>

text \<open>The proleptic Gregorian calendar with the year 0, as the time package has it, by
  counting days forwards and backwards from 1 January 1970. A date is a year, a month
  and a day.\<close>

type_synonym date = "int \<times> nat \<times> nat"

definition is_leap :: "int \<Rightarrow> bool" where
  "is_leap y = (y mod 4 = 0 \<and> (y mod 100 \<noteq> 0 \<or> y mod 400 = 0))"

definition days_in_month :: "int \<Rightarrow> nat \<Rightarrow> nat" where
  "days_in_month y m =
     (if m = 2 then (if is_leap y then 29 else 28)
      else if m = 4 \<or> m = 6 \<or> m = 9 \<or> m = 11 then 30 else 31)"

fun next_day :: "date \<Rightarrow> date" where
  "next_day (y, m, d) =
     (if d < days_in_month y m then (y, m, d + 1)
      else if m < 12 then (y, m + 1, 1)
      else (y + 1, 1, 1))"

fun prev_day :: "date \<Rightarrow> date" where
  "prev_day (y, m, d) =
     (if 1 < d then (y, m, d - 1)
      else if 1 < m then (y, m - 1, days_in_month y (m - 1))
      else (y - 1, 12, 31))"

text \<open>The date of a day, counted from 1 January 1970 as day 0.\<close>

definition date_of_days :: "int \<Rightarrow> date" where
  "date_of_days n =
     (if 0 \<le> n then (next_day ^^ nat n) (1970, 1, 1) else (prev_day ^^ nat (- n)) (1970, 1, 1))"

text \<open>A location (\<open>*time.Location\<close>) gives the offset of local time from UTC, in seconds
  east of Greenwich, at each instant. \<open>time.Now()\<close> carries the local location, and the
  methods of a \<open>Time\<close> read the wall clock of its location: the instant plus the offset
  there, in seconds since 1970-01-01 00:00:00 on that clock.\<close>

type_synonym Location = "Time \<Rightarrow> int"

definition wall_seconds :: "Location \<Rightarrow> Time \<Rightarrow> int" where
  "wall_seconds loc t = t + loc t"

text \<open>\<open>t.Format("20060102_150405")\<close> on the wall clock: the year in four digits, then
  month, day, an underscore, hour, minute and second in two digits each.\<close>

definition format_stamp :: "int \<Rightarrow> string" where
  "format_stamp w =
     (case date_of_days (w div 86400) of (y, m, d) \<Rightarrow>
        appendInt y 4 @ appendInt (int m) 2 @ appendInt (int d) 2 @ ''_'' @
        appendInt (w mod 86400 div 3600) 2 @ appendInt (w mod 3600 div 60) 2 @
        appendInt (w mod 60) 2)"



section \<open>The recorder (\<open>internal/recorder\<close>)\<close>

text \<open>An \<open>exec.Cmd\<close>: its arguments, and whether a process was started for it.\<close>

record Cmd =
  cmd_args :: "string list"
  cmd_process :: bool

text \<open>The struct \<open>Recorder\<close>. The channel \<open>stopCh\<close> carries no values and is only ever
  closed, so its state is whether it is closed. The field \<open>loops\<close> is not in the struct:
  it counts the \<open>runRecorder\<close> goroutines that \<open>Start\<close> has launched.\<close>

record Recorder =
  config :: RecordingConfig
  rtspURL :: string
  cameraName :: string
  outputDir :: string
  cmd :: "Cmd option"
  stopCh_closed :: bool
  running :: bool
  lastError :: "error option"
  startTime :: Time
  loops :: nat

definition New :: "string \<Rightarrow> string \<Rightarrow> RecordingConfig \<Rightarrow> Recorder" where
  "New url name cfg =
     \<lparr> config = cfg, rtspURL = url, cameraName = name,
       outputDir = filepath_Join (OutputDir cfg) (safe_name name),
       cmd = None, stopCh_closed = False, running = False, lastError = None,
       startTime = 0, loops = 0 \<rparr>"

text \<open>What \<open>Start\<close> reads from outside: the outcome of \<open>os.MkdirAll\<close> on a path
  (\<open>None\<close> is success) and the clock.\<close>

record start_env =
  mkdir_all :: "string \<Rightarrow> os_error option"
  now :: Time

definition Start :: "start_env \<Rightarrow> Recorder \<Rightarrow> error option \<times> Recorder" where
  "Start env r =
     (if running r then (Some AlreadyRunning, r)
      else case mkdir_all env (outputDir r) of
             Some e \<Rightarrow> (Some (IOFailure e), r)
           | None \<Rightarrow> (None, r\<lparr> loops := loops r + 1, running := True, startTime := now env \<rparr>))"

text \<open>\<open>Stop\<close>. \<open>close(r.stopCh)\<close> panics on a closed channel, before \<open>running\<close> is reset;
  the deferred unlock runs and the panic goes to the caller.\<close>

definition Stop :: "Recorder \<Rightarrow> panic option \<times> Recorder" where
  "Stop r =
     (if \<not> running r then (None, r)
      else if stopCh_closed r then (Some CloseOfClosedChannel, r)
      else (None, r\<lparr> stopCh_closed := True, running := False \<rparr>))"

definition IsRunning :: "Recorder \<Rightarrow> bool" where
  "IsRunning r = running r"

definition GetLastError :: "Recorder \<Rightarrow> error option" where
  "GetLastError r = lastError r"

text \<open>\<open>Uptime\<close>, in seconds; the argument is the clock.\<close>

definition Uptime :: "Time \<Rightarrow> Recorder \<Rightarrow> int" where
  "Uptime t r = (if \<not> running r then 0 else t - startTime r)"

subsection \<open>The supervision loop\<close>

text \<open>What the child process did in one call of \<open>cmd.Run()\<close>.\<close>

datatype run_result = RunOk | LaunchFailed os_error | ExitFailed os_error

text \<open>What one iteration of the loop of \<open>runRecorder\<close> reads from outside: the state of
  the context at the \<open>select\<close>, the local clock, the outcome of the child, and the state of
  the context after the child has returned.\<close>

record tick =
  ctx_at_select :: ctx_err
  tick_now :: Time
  tick_loc :: Location
  run :: run_result
  ctx_after_run :: ctx_err

text \<open>What the loop does to the outside, in order.\<close>

datatype event =
    Launch "string list"      \<comment> \<open>\<open>cmd.Run()\<close> of ffmpeg with these arguments\<close>
  | Sleep Duration            \<comment> \<open>\<open>time.Sleep\<close>\<close>
  | Interrupt                 \<comment> \<open>\<open>cmd.Process.Signal(os.Interrupt)\<close>\<close>
  | Wait                      \<comment> \<open>\<open>cmd.Wait()\<close>\<close>

text \<open>\<open>int(d.Seconds())\<close>. \<open>Seconds\<close> computes \<open>float64(sec) + float64(nsec)/1e9\<close> from the
  whole seconds and the remaining nanoseconds of the duration, in IEEE double precision,
  and the conversion to \<open>int\<close> drops the fraction. Both integers are exact as doubles. The
  sum is rounded to a double, and it is rounded up to the next whole second when the
  fraction is within half a unit in the last place of it: with \<open>2 ^ e \<le> sec < 2 ^ (e + 1)\<close>
  that is when \<open>1 - nsec / 10^9 < 2 ^ (e - 53) + 2 ^ (- 54)\<close>, the second term for the
  rounding of the quotient. This happens from \<open>2 ^ 24\<close> seconds on. \<open>bit_len sec\<close> is
  \<open>e + 1\<close>.\<close>

fun bit_len :: "nat \<Rightarrow> nat" where
  "bit_len n = (if n = 0 then 0 else Suc (bit_len (n div 2)))"

declare bit_len.simps [simp del]

definition whole_seconds :: "Duration \<Rightarrow> int" where
  "whole_seconds d =
     (let sec = \<bar>d\<bar> div Second;
          nsec = \<bar>d\<bar> mod Second;
          up = (1 \<le> sec \<and> (Second - nsec) * 2 ^ 54 < Second * (2 ^ bit_len (nat sec) + 1));
          magnitude = (if up then sec + 1 else sec)
      in if d < 0 then - magnitude else magnitude)"

definition segment_filename :: "Recorder \<Rightarrow> Location \<Rightarrow> Time \<Rightarrow> string" where
  "segment_filename r loc t =
     safe_name (cameraName r) @ ''_'' @ format_stamp (wall_seconds loc t) @ ''.'' @
     Format (config r)"

definition segment_args :: "Recorder \<Rightarrow> string \<Rightarrow> string list" where
  "segment_args r outputPath =
     [''-rtsp_transport'', ''tcp'', ''-i'', rtspURL r,
      ''-c:v'', ''libx264'', ''-preset'', ''veryfast'', ''-crf'', ''23'',
      ''-c:a'', ''aac'', ''-b:a'', ''128k'',
      ''-t'', sprint_d (whole_seconds (SegmentDuration (config r))),
      ''-movflags'', ''+faststart'', ''-y'', outputPath]"

definition recordSegment :: "tick \<Rightarrow> Recorder \<Rightarrow> error option \<times> Recorder \<times> event list" where
  "recordSegment k r =
     (let filename = segment_filename r (tick_loc k) (tick_now k);
          outputPath = filepath_Join (outputDir r) filename;
          args = segment_args r outputPath;
          started = (case run k of LaunchFailed _ \<Rightarrow> False | _ \<Rightarrow> True);
          r' = r\<lparr> cmd := Some \<lparr> cmd_args = args, cmd_process = started \<rparr> \<rparr>
      in case run k of
           RunOk \<Rightarrow> (None, r', [Launch args])
         | LaunchFailed e \<Rightarrow>
             (if ctx_after_run k = Canceled then (None, r', [Launch args])
              else (Some (RuntimeFailure e), r', [Launch args]))
         | ExitFailed e \<Rightarrow>
             (if ctx_after_run k = Canceled then (None, r', [Launch args])
              else (Some (RuntimeFailure e), r', [Launch args])))"

definition stopFFmpeg :: "Recorder \<Rightarrow> event list" where
  "stopFFmpeg r =
     (case cmd r of
        None \<Rightarrow> []
      | Some c \<Rightarrow> if cmd_process c then [Interrupt, Wait] else [])"

text \<open>One pass through the \<open>for\<close> of \<open>runRecorder\<close>: whether the loop goes on, the
  recorder, and what was done. With the context done or the stop channel closed the
  \<open>select\<close> cannot take its default branch.\<close>

definition runRecorder_iter :: "tick \<Rightarrow> Recorder \<Rightarrow> bool \<times> Recorder \<times> event list" where
  "runRecorder_iter k r =
     (if ctx_at_select k \<noteq> CtxLive \<or> stopCh_closed r then (False, r, stopFFmpeg r)
      else case recordSegment k r of
             (None, r', evs) \<Rightarrow> (True, r', evs)
           | (Some e, r', evs) \<Rightarrow> (True, r'\<lparr> lastError := Some e \<rparr>, evs @ [Sleep (5 * Second)]))"

text \<open>The loop over a finite prefix of what the outside supplies, one \<open>tick\<close> for each
  iteration. The loop has either returned (\<open>Exited\<close>) or is about to start its next
  iteration (\<open>Looping\<close>).\<close>

datatype loop_status = Exited | Looping

fun runRecorder :: "tick list \<Rightarrow> Recorder \<Rightarrow> loop_status \<times> Recorder \<times> event list" where
  "runRecorder [] r = (Looping, r, [])"
| "runRecorder (k # ks) r =
     (case runRecorder_iter k r of
        (False, r', evs) \<Rightarrow> (Exited, r', evs)
      | (True, r', evs) \<Rightarrow>
          (case runRecorder ks r' of (st, r'', evs') \<Rightarrow> (st, r'', evs @ evs')))"

subsection \<open>The recording registry\<close>

text \<open>The struct \<open>RecorderManager\<close>. The map holds pointers in Go; here it holds the
  recorders themselves, and an operation on a recorder writes it back.\<close>

record RecorderManager =
  rm_config :: RecordingConfig
  recorders :: "string \<rightharpoonup> Recorder"

definition NewRecorderManager :: "RecordingConfig \<Rightarrow> RecorderManager" where
  "NewRecorderManager cfg = \<lparr> rm_config = cfg, recorders = Map.empty \<rparr>"

definition AddCamera ::
  "start_env \<Rightarrow> string \<Rightarrow> string \<Rightarrow> bool \<Rightarrow> RecorderManager \<Rightarrow> error option \<times> RecorderManager" where
  "AddCamera env name url enabled rm =
     (case recorders rm name of
        Some _ \<Rightarrow> (Some (AlreadyExists name), rm)
      | None \<Rightarrow>
          (let rec = New url name (rm_config rm);
               rm' = rm\<lparr> recorders := (recorders rm)(name \<mapsto> rec) \<rparr>
           in if enabled then
                (case Start env rec of
                   (Some err, rec') \<Rightarrow>
                     (Some (StartFailed name err), rm'\<lparr> recorders := (recorders rm')(name \<mapsto> rec') \<rparr>)
                 | (None, rec') \<Rightarrow> (None, rm'\<lparr> recorders := (recorders rm')(name \<mapsto> rec') \<rparr>))
              else (None, rm')))"

definition RemoveCamera :: "string \<Rightarrow> RecorderManager \<Rightarrow> panic option \<times> RecorderManager" where
  "RemoveCamera name rm =
     (case recorders rm name of
        None \<Rightarrow> (None, rm)
      | Some rec \<Rightarrow>
          (case Stop rec of
             (Some p, rec') \<Rightarrow> (Some p, rm\<lparr> recorders := (recorders rm)(name \<mapsto> rec') \<rparr>)
           | (None, rec') \<Rightarrow> (None, rm\<lparr> recorders := (recorders rm)(name := None) \<rparr>)))"

definition StartCamera :: "start_env \<Rightarrow> string \<Rightarrow> RecorderManager \<Rightarrow> error option \<times> RecorderManager" where
  "StartCamera env name rm =
     (case recorders rm name of
        None \<Rightarrow> (Some (NotFound name), rm)
      | Some rec \<Rightarrow>
          (case Start env rec of
             (res, rec') \<Rightarrow> (res, rm\<lparr> recorders := (recorders rm)(name \<mapsto> rec') \<rparr>)))"

text \<open>\<open>StopCamera\<close> has no result in Go: the caller sees either a normal return
  (\<open>None\<close>) or a panic.\<close>

definition StopCamera :: "string \<Rightarrow> RecorderManager \<Rightarrow> panic option \<times> RecorderManager" where
  "StopCamera name rm =
     (case recorders rm name of
        None \<Rightarrow> (None, rm)
      | Some rec \<Rightarrow>
          (case Stop rec of
             (res, rec') \<Rightarrow> (res, rm\<lparr> recorders := (recorders rm)(name \<mapsto> rec') \<rparr>)))"

text \<open>\<open>GetRecorder\<close> returns \<open>(rec, ok)\<close>: \<open>Some rec\<close> is \<open>(rec, true)\<close>, \<open>None\<close> is
  \<open>(nil, false)\<close>.\<close>

definition GetRecorder :: "string \<Rightarrow> RecorderManager \<Rightarrow> Recorder option" where
  "GetRecorder name rm = recorders rm name"

subsection \<open>Operations on one recorder, as a state machine\<close>

text \<open>The calls that can reach a recorder after it was made: its methods, and one
  iteration of a supervision loop that an earlier \<open>Start\<close> launched.\<close>

datatype rec_op =
    OpStart start_env
  | OpStop
  | OpIsRunning
  | OpGetLastError
  | OpUptime Time
  | OpLoopIter tick

fun apply_rec_op :: "rec_op \<Rightarrow> Recorder \<Rightarrow> Recorder" where
  "apply_rec_op (OpStart env) r = snd (Start env r)"
| "apply_rec_op OpStop r = snd (Stop r)"
| "apply_rec_op OpIsRunning r = r"
| "apply_rec_op OpGetLastError r = r"
| "apply_rec_op (OpUptime t) r = r"
| "apply_rec_op (OpLoopIter k) r = fst (snd (runRecorder_iter k r))"

definition apply_rec_ops :: "rec_op list \<Rightarrow> Recorder \<Rightarrow> Recorder" where
  "apply_rec_ops ops r = fold apply_rec_op ops r"

text \<open>A tick on which a segment fails with no stop or cancellation pending, and the
  message of its failure.\<close>

definition failing_tick :: "tick \<Rightarrow> bool" where
  "failing_tick k = (ctx_at_select k = CtxLive \<and> run k \<noteq> RunOk \<and> ctx_after_run k \<noteq> Canceled)"

definition run_error :: "tick \<Rightarrow> os_error" where
  "run_error k = (case run k of RunOk \<Rightarrow> [] | LaunchFailed e \<Rightarrow> e | ExitFailed e \<Rightarrow> e)"

text \<open>The arguments of the child that a segment attempt on tick \<open>k\<close> launches.\<close>

definition attempt_args :: "Recorder \<Rightarrow> tick \<Rightarrow> string list" where
  "attempt_args r k =
     segment_args r (filepath_Join (outputDir r) (segment_filename r (tick_loc k) (tick_now k)))"

definition is_Launch :: "event \<Rightarrow> bool" where
  "is_Launch e = (case e of Launch _ \<Rightarrow> True | _ \<Rightarrow> False)"

section \<open>The frame demuxer (\<open>MJPEGStreamer.readFrames\<close>)\<close>

text \<open>The two markers: start of image \<open>0xFF 0xD8\<close> and end of image \<open>0xFF 0xD9\<close>.\<close>

definition SOI :: "byte list" where
  "SOI = [0xFF, 0xD8]"

definition EOI :: "byte list" where
  "EOI = [0xFF, 0xD9]"

text \<open>The inner loop of \<open>bytesIndex\<close>: does the pattern stand at index \<open>i\<close>? It is only asked
  where \<open>i + len(pattern) \<le> len(data)\<close>, so every index it reads is in range.\<close>

definition match_at :: "byte list \<Rightarrow> byte list \<Rightarrow> nat \<Rightarrow> bool" where
  "match_at data pattern i = (\<forall>j < length pattern. data ! (i + j) = pattern ! j)"

text \<open>The outer loop of \<open>bytesIndex\<close>, from index \<open>i\<close> on. Go computes
  \<open>len(data) - len(pattern)\<close> on signed integers, so a pattern longer than the data ends
  the loop at once.\<close>

function bytesIndex_from :: "byte list \<Rightarrow> byte list \<Rightarrow> nat \<Rightarrow> int" where
  "bytesIndex_from data pattern i =
     (if int i \<le> int (length data) - int (length pattern)
      then (if match_at data pattern i then int i else bytesIndex_from data pattern (i + 1))
      else - 1)"
  by pat_completeness auto
termination
  by (relation "measure (\<lambda>(data, pattern, i). Suc (length data) - i)") auto

declare bytesIndex_from.simps [simp del]

definition bytesIndex :: "byte list \<Rightarrow> byte list \<Rightarrow> int" where
  "bytesIndex data pattern = bytesIndex_from data pattern 0"

text \<open>The inner \<open>for\<close> of \<open>readFrames\<close>, run on the accumulator after a chunk was
  appended: the frames handed to the callback, in order, and the accumulator that is
  left. The slices \<open>accumulator[a:b]\<close> are \<open>take\<close> and \<open>drop\<close>. The loop ends because
  every frame it cuts off shortens the accumulator by two bytes at least.\<close>

function scan :: "byte list \<Rightarrow> byte list list \<times> byte list" where
  "scan accumulator =
     (let startIdx = bytesIndex accumulator SOI in
      if startIdx = - 1 then
        ([], if length accumulator > 512 * 1024
             then drop (length accumulator div 2) accumulator else accumulator)
      else
        let endIdx = bytesIndex (drop (nat startIdx) accumulator) EOI in
        if endIdx = - 1 then ([], accumulator)
        else
          let endIdx' = endIdx + startIdx + 2;
              frame = take (nat endIdx' - nat startIdx) (drop (nat startIdx) accumulator)
          in case scan (drop (nat endIdx') accumulator) of
               (frames, rest) \<Rightarrow> (frame # frames, rest))"
  by pat_completeness auto
termination
proof (relation "measure length")
  show "wf (measure length)" by simp
next
  fix accumulator :: "byte list" and startIdx endIdx endIdx' :: int
  assume s: "startIdx = bytesIndex accumulator SOI" "startIdx \<noteq> - 1"
    and e: "endIdx = bytesIndex (drop (nat startIdx) accumulator) EOI" "endIdx \<noteq> - 1"
    and e': "endIdx' = endIdx + startIdx + 2"
  have bound: "bytesIndex_from d p i \<noteq> - 1 \<Longrightarrow>
      int i \<le> bytesIndex_from d p i \<and> bytesIndex_from d p i \<le> int (length d) - int (length p)"
    for d p :: "byte list" and i :: nat
  proof (induction d p i rule: bytesIndex_from.induct)
    case (1 d p i)
    show ?case
    proof (cases "int i \<le> int (length d) - int (length p)")
      case False
      with "1.prems" show ?thesis by (simp add: bytesIndex_from.simps [of d p i])
    next
      case True
      show ?thesis
      proof (cases "match_at d p i")
        case m: True
        with True show ?thesis by (simp add: bytesIndex_from.simps [of d p i])
      next
        case m: False
        with True have eq: "bytesIndex_from d p i = bytesIndex_from d p (i + 1)"
          by (simp add: bytesIndex_from.simps [of d p i])
        from "1.IH" [OF True m] "1.prems" eq show ?thesis by simp
      qed
    qed
  qed
  from bound [of accumulator SOI 0] s
  have s0: "0 \<le> startIdx" "startIdx \<le> int (length accumulator) - 2"
    by (simp_all add: bytesIndex_def SOI_def)
  from bound [of "drop (nat startIdx) accumulator" EOI 0] e
  have e0: "0 \<le> endIdx" by (simp add: bytesIndex_def)
  from s0 e0 e' have "0 < nat endIdx'" "accumulator \<noteq> []" by auto
  then show "(drop (nat endIdx') accumulator, accumulator) \<in> measure length"
    by simp
qed

declare scan.simps [simp del]

text \<open>What one pass of the outer \<open>for\<close> of \<open>readFrames\<close> meets: the stop channel closed,
  a read that fails (or the end of the stream), or a read that gives a chunk.\<close>

datatype read_event = StopClosed | ReadFailed | ReadChunk "byte list"

text \<open>One pass that reads a chunk: append, then scan.\<close>

definition feed :: "byte list \<Rightarrow> byte list \<Rightarrow> byte list list \<times> byte list" where
  "feed accumulator chunk = scan (accumulator @ chunk)"

text \<open>\<open>readFrames\<close> from a given accumulator, over a finite prefix of what it meets: the
  frames handed to the callback, in order.\<close>

fun readFrames_from :: "byte list \<Rightarrow> read_event list \<Rightarrow> byte list list" where
  "readFrames_from accumulator [] = []"
| "readFrames_from accumulator (StopClosed # evs) = []"
| "readFrames_from accumulator (ReadFailed # evs) = []"
| "readFrames_from accumulator (ReadChunk chunk # evs) =
     (case feed accumulator chunk of
        (frames, accumulator') \<Rightarrow> frames @ readFrames_from accumulator' evs)"

definition readFrames :: "read_event list \<Rightarrow> byte list list" where
  "readFrames evs = readFrames_from [] evs"

text \<open>A complete frame: it begins with the start marker, ends with the end marker, and
  the end marker stands nowhere earlier in it.\<close>

definition is_frame :: "byte list \<Rightarrow> bool" where
  "is_frame f =
     (4 \<le> length f \<and> take 2 f = SOI \<and> drop (length f - 2) f = EOI \<and>
      \<not> sublist EOI (butlast f))"

text \<open>A byte string that holds a complete frame somewhere: a start marker and, after it,
  an end marker.\<close>

definition has_frame :: "byte list \<Rightarrow> bool" where
  "has_frame xs = (\<exists>u v w. xs = u @ SOI @ v @ EOI @ w)"

section \<open>The live-view streamer and its manager\<close>

text \<open>The struct \<open>MJPEGStreamer\<close>.\<close>

record MJPEGStreamer =
  s_rtspURL :: string
  s_cmd :: "Cmd option"
  s_stopCh_closed :: bool
  s_running :: bool

definition NewMJPEGStreamer :: "string \<Rightarrow> MJPEGStreamer" where
  "NewMJPEGStreamer url =
     \<lparr> s_rtspURL = url, s_cmd = None, s_stopCh_closed = False, s_running = False \<rparr>"

text \<open>What \<open>MJPEGStreamer.Start\<close> meets outside: the outcome of \<open>cmd.StdoutPipe()\<close> and of
  \<open>cmd.Start()\<close> (\<open>None\<close> is success).\<close>

record launch_env =
  stdout_pipe :: "os_error option"
  cmd_start :: "os_error option"

definition streamer_args :: "MJPEGStreamer \<Rightarrow> string list" where
  "streamer_args s =
     [''-rtsp_transport'', ''tcp'', ''-i'', s_rtspURL s, ''-vf'', ''fps=10,scale=640:-1'',
      ''-c:v'', ''mjpeg'', ''-q:v'', ''5'', ''-f'', ''image2pipe'', ''-'']"

definition MJPEGStreamer_Start :: "launch_env \<Rightarrow> MJPEGStreamer \<Rightarrow> error option \<times> MJPEGStreamer" where
  "MJPEGStreamer_Start env s =
     (if s_running s then (Some StreamerAlreadyRunning, s)
      else
        let s1 = s\<lparr> s_cmd := Some \<lparr> cmd_args = streamer_args s, cmd_process = False \<rparr> \<rparr> in
        case stdout_pipe env of
          Some e \<Rightarrow> (Some (PipeFailure e), s1)
        | None \<Rightarrow>
            (case cmd_start env of
               Some e \<Rightarrow> (Some (LaunchFailure e), s1)
             | None \<Rightarrow>
                 (None, s\<lparr> s_cmd := Some \<lparr> cmd_args = streamer_args s, cmd_process = True \<rparr>,
                            s_running := True \<rparr>)))"

definition MJPEGStreamer_Stop :: "MJPEGStreamer \<Rightarrow> panic option \<times> MJPEGStreamer" where
  "MJPEGStreamer_Stop s =
     (if \<not> s_running s then (None, s)
      else if s_stopCh_closed s then (Some CloseOfClosedChannel, s)
      else (None, s\<lparr> s_stopCh_closed := True, s_running := False \<rparr>))"

definition MJPEGStreamer_IsRunning :: "MJPEGStreamer \<Rightarrow> bool" where
  "MJPEGStreamer_IsRunning s = s_running s"

text \<open>The struct \<open>MJPEGManager\<close>. A \<open>*sync.Cond\<close> is known by its identity only, a number
  here; \<open>allocated\<close> counts the condition variables made so far, so that
  \<open>sync.NewCond\<close> gives a fresh one, and \<open>spawned\<close> counts the goroutines
  \<open>go streamer.Start(...)\<close> launched. Neither is a field of the struct. A frame slot holds
  one byte slice; the nil slice is the empty list.\<close>

type_synonym cond = nat

record MJPEGManager =
  streamers :: "string \<rightharpoonup> MJPEGStreamer"
  frames :: "string \<rightharpoonup> byte list"
  conds :: "string \<rightharpoonup> cond"
  allocated :: nat
  spawned :: nat

definition NewMJPEGManager :: MJPEGManager where
  "NewMJPEGManager =
     \<lparr> streamers = Map.empty, frames = Map.empty, conds = Map.empty,
       allocated = 0, spawned = 0 \<rparr>"

definition MJPEGManager_Start :: "string \<Rightarrow> string \<Rightarrow> MJPEGManager \<Rightarrow> error option \<times> MJPEGManager" where
  "MJPEGManager_Start name url m =
     (case streamers m name of
        Some _ \<Rightarrow> (None, m)
      | None \<Rightarrow>
          (None, m\<lparr> streamers := (streamers m)(name \<mapsto> NewMJPEGStreamer url),
                    frames := (frames m)(name \<mapsto> []),
                    conds := (conds m)(name \<mapsto> allocated m),
                    allocated := allocated m + 1,
                    spawned := spawned m + 1 \<rparr>))"

text \<open>The frame callback that \<open>MJPEGManager.Start\<close> hands to the streamer. It takes the
  manager's lock twice. In its first critical section it looks the condition variable
  of the camera up, under the read lock, and returns if there is none. It then gives the
  lock up. In its second critical section it stores a copy of the frame in the slot of
  the camera, under the write lock, and broadcasts on the condition variable it found.
  Between the two any other operation on the manager can run.\<close>

definition callback_lookup :: "string \<Rightarrow> MJPEGManager \<Rightarrow> cond option" where
  "callback_lookup name m = conds m name"

definition callback_store :: "string \<Rightarrow> byte list \<Rightarrow> MJPEGManager \<Rightarrow> MJPEGManager" where
  "callback_store name frame m = m\<lparr> frames := (frames m)(name \<mapsto> frame) \<rparr>"

definition MJPEGManager_Stop :: "string \<Rightarrow> MJPEGManager \<Rightarrow> panic option \<times> MJPEGManager" where
  "MJPEGManager_Stop name m =
     (case streamers m name of
        None \<Rightarrow> (None, m)
      | Some s \<Rightarrow>
          (case MJPEGStreamer_Stop s of
             (Some p, s') \<Rightarrow> (Some p, m\<lparr> streamers := (streamers m)(name \<mapsto> s') \<rparr>)
           | (None, s') \<Rightarrow>
               (None, m\<lparr> streamers := (streamers m)(name := None),
                         frames := (frames m)(name := None),
                         conds := (conds m)(name := None) \<rparr>)))"

text \<open>\<open>StopAll\<close> stops every streamer, in the order in which Go ranges over the map, and
  then replaces the three maps. If stopping one of the streamers panics, the maps are not
  replaced; which of the other streamers were stopped before that depends on the order,
  and the manager is given back as it was.\<close>

definition MJPEGManager_StopAll :: "MJPEGManager \<Rightarrow> panic option \<times> MJPEGManager" where
  "MJPEGManager_StopAll m =
     (if \<exists>s \<in> ran (streamers m). s_running s \<and> s_stopCh_closed s
      then (Some CloseOfClosedChannel, m)
      else (None, m\<lparr> streamers := Map.empty, frames := Map.empty, conds := Map.empty \<rparr>))"

text \<open>\<open>GetFrame\<close> and \<open>GetCond\<close> return \<open>(value, ok)\<close>: \<open>Some v\<close> is \<open>(v, true)\<close>, \<open>None\<close> is
  not found.\<close>

definition GetFrame :: "string \<Rightarrow> MJPEGManager \<Rightarrow> byte list option" where
  "GetFrame name m = frames m name"

definition GetCond :: "string \<Rightarrow> MJPEGManager \<Rightarrow> cond option" where
  "GetCond name m = conds m name"

definition MJPEGManager_IsRunning :: "string \<Rightarrow> MJPEGManager \<Rightarrow> bool" where
  "MJPEGManager_IsRunning name m =
     (case streamers m name of Some s \<Rightarrow> MJPEGStreamer_IsRunning s | None \<Rightarrow> False)"

text \<open>Everything that acts on the manager, one critical section at a time: its methods,
  the two sections of the frame callback, and the goroutine that starts the streamer
  registered under a name. A callback stores only after its own lookup has found a
  condition variable.\<close>

datatype mjpeg_op =
    MStart string string
  | MStop string
  | MStopAll
  | MCallbackLookup string
  | MCallbackStore string "byte list"
  | MStreamerStart string launch_env
  | MGetFrame string
  | MGetCond string
  | MIsRunning string

fun apply_mjpeg_op :: "mjpeg_op \<Rightarrow> MJPEGManager \<Rightarrow> MJPEGManager" where
  "apply_mjpeg_op (MStart name url) m = snd (MJPEGManager_Start name url m)"
| "apply_mjpeg_op (MStop name) m = snd (MJPEGManager_Stop name m)"
| "apply_mjpeg_op MStopAll m = snd (MJPEGManager_StopAll m)"
| "apply_mjpeg_op (MCallbackLookup name) m = m"
| "apply_mjpeg_op (MCallbackStore name frame) m = callback_store name frame m"
| "apply_mjpeg_op (MStreamerStart name env) m =
     (case streamers m name of
        None \<Rightarrow> m
      | Some s \<Rightarrow> m\<lparr> streamers := (streamers m)(name \<mapsto> snd (MJPEGStreamer_Start env s)) \<rparr>)"
| "apply_mjpeg_op (MGetFrame name) m = m"
| "apply_mjpeg_op (MGetCond name) m = m"
| "apply_mjpeg_op (MIsRunning name) m = m"

definition apply_mjpeg_ops :: "mjpeg_op list \<Rightarrow> MJPEGManager \<Rightarrow> MJPEGManager" where
  "apply_mjpeg_ops ops m = fold apply_mjpeg_op ops m"

section \<open>The retention sweep (\<open>internal/storage\<close>)\<close>















subsection \<open>The sweep as the specification words it\<close>






section \<open>Dates that the calendar reaches\<close>

text \<open>A date with a month from 1 to 12 and a day that the month has.\<close>

definition valid_date :: "date \<Rightarrow> bool" where
  "valid_date dt = (case dt of (y, m, d) \<Rightarrow> 1 \<le> m \<and> m \<le> 12 \<and> 1 \<le> d \<and> d \<le> days_in_month y m)"

text \<open>The year of a wall-clock reading.\<close>

definition wall_year :: "int \<Rightarrow> int" where
  "wall_year w = fst (date_of_days (w div 86400))"

section \<open>Concrete values used in the examples\<close>

definition cfg0 :: RecordingConfig where
  "cfg0 = \<lparr> SegmentDuration = 300 * Second, RetentionDays = 7,
            OutputDir = ''/var/recordings'', Format = ''mp4'' \<rparr>"

definition env_ok :: start_env where
  "env_ok = \<lparr> mkdir_all = (\<lambda>_. None), now = 1000 \<rparr>"

definition env_fail :: start_env where
  "env_fail = \<lparr> mkdir_all = (\<lambda>_. Some ''permission denied''), now = 1000 \<rparr>"

definition rec0 :: Recorder where
  "rec0 = New ''rtsp://a'' ''Cam 1'' cfg0"

definition tick_fail :: tick where
  "tick_fail = \<lparr> ctx_at_select = CtxLive, tick_now = 1800, tick_loc = (\<lambda>_. 0),
                 run = ExitFailed ''exit status 1'', ctx_after_run = CtxLive \<rparr>"

definition tick_nolaunch :: tick where
  "tick_nolaunch = \<lparr> ctx_at_select = CtxLive, tick_now = 1900, tick_loc = (\<lambda>_. 0),
                 run = LaunchFailed ''executable file not found'', ctx_after_run = CtxLive \<rparr>"

definition tick_ok :: tick where
  "tick_ok = \<lparr> ctx_at_select = CtxLive, tick_now = 2000, tick_loc = (\<lambda>_. 0),
               run = RunOk, ctx_after_run = CtxLive \<rparr>"

definition frame_a :: "byte list" where
  "frame_a = [0xFF, 0xD8, 0x01, 0x02, 0xFF, 0xD9]"

definition frame_b :: "byte list" where
  "frame_b = [0xFF, 0xD8, 0x03, 0xFF, 0xD9]"

definition launch_ok :: launch_env where
  "launch_ok = \<lparr> stdout_pipe = None, cmd_start = None \<rparr>"


text \<open>A zone that sets its clocks back by one hour at the instant 3600: two hours ahead
  of UTC before, one hour ahead from then on.\<close>

definition zone_fall_back :: Location where
  "zone_fall_back = (\<lambda>t. if t < 3600 then 7200 else 3600)"








section \<open>Properties of the recorder\<close>

text \<open>
  C1. A \<open>Start\<close> on a recorder that is running returns the error \<open>AlreadyRunning\<close>
  and leaves the whole recorder as it was: the running flag, the start time, the output
  directory, the number of supervision loops launched and every other field.
\<close>

theorem Start_running_AlreadyRunning:
  "running r \<Longrightarrow> Start env r = (Some AlreadyRunning, r)"
  by (simp add: Start_def)

theorem Start_running_AlreadyRunning_witness:
  "running (snd (Start env_ok rec0)) \<and>
   Start env_ok (snd (Start env_ok rec0)) = (Some AlreadyRunning, snd (Start env_ok rec0))"
proof -
  have h: "running (snd (Start env_ok rec0))"
    by (simp add: Start_def rec0_def New_def env_ok_def)
  from h Start_running_AlreadyRunning [OF h, of env_ok] show ?thesis by simp
qed

subsection \<open>The registry on a name it does not hold\<close>

text \<open>
  C2, as the code has it. For a camera name that is not in the recording registry,
  \<open>StartCamera\<close> returns the error \<open>NotFound\<close>, \<open>GetRecorder\<close> reports the name as absent
  (Go's \<open>(nil, false)\<close>), and \<open>StopCamera\<close>, which has no result, returns normally and
  reports nothing; none of the three changes the registry.
\<close>

theorem registry_unknown_name:
  "recorders rm name = None \<Longrightarrow>
     StartCamera env name rm = (Some (NotFound name), rm) \<and>
     StopCamera name rm = (None, rm) \<and>
     GetRecorder name rm = None"
  by (simp add: StartCamera_def StopCamera_def GetRecorder_def)

theorem registry_unknown_name_witness:
  "recorders (NewRecorderManager cfg0) ''ghost'' = None \<and>
   StartCamera env_ok ''ghost'' (NewRecorderManager cfg0)
     = (Some (NotFound ''ghost''), NewRecorderManager cfg0) \<and>
   StopCamera ''ghost'' (NewRecorderManager cfg0) = (None, NewRecorderManager cfg0) \<and>
   GetRecorder ''ghost'' (NewRecorderManager cfg0) = None"
proof -
  have h: "recorders (NewRecorderManager cfg0) ''ghost'' = None"
    by (simp add: NewRecorderManager_def)
  from h registry_unknown_name [OF h, of env_ok] show ?thesis by simp
qed

text \<open>
  The claim as the specification words it asks for a \<open>NotFound\<close> failure from all three
  operations. \<open>StopCamera\<close> on a name the registry does not hold returns normally, with
  neither an error nor a panic.
\<close>

theorem StopCamera_unknown_no_error:
  "recorders (NewRecorderManager cfg0) ''ghost'' = None \<and>
   fst (StopCamera ''ghost'' (NewRecorderManager cfg0)) = None"
  by (simp add: StopCamera_def NewRecorderManager_def)

subsection \<open>Registration survives a failed start\<close>

text \<open>
  C9. When \<open>AddCamera\<close> is called with \<open>enabled = true\<close> for a new name and the \<open>Start\<close>
  of the new recorder fails, \<open>AddCamera\<close> returns an error that wraps the failure, and the
  camera stays registered under its name with the recorder as \<open>New\<close> made it; the other
  entries of the registry are as before.
\<close>

theorem AddCamera_start_failure_keeps_entry:
  assumes "recorders rm name = None"
    and "fst (Start env (New url name (rm_config rm))) = Some err"
  shows "fst (AddCamera env name url True rm) = Some (StartFailed name err) \<and>
         GetRecorder name (snd (AddCamera env name url True rm)) = Some (New url name (rm_config rm)) \<and>
         (\<forall>other. other \<noteq> name \<longrightarrow>
            GetRecorder other (snd (AddCamera env name url True rm)) = GetRecorder other rm)"
  using assms
  by (auto simp: AddCamera_def Let_def GetRecorder_def Start_def New_def split: option.splits if_splits)

theorem AddCamera_start_failure_keeps_entry_witness:
  "recorders (NewRecorderManager cfg0) ''Cam 1'' = None \<and>
   fst (Start env_fail (New ''rtsp://a'' ''Cam 1'' (rm_config (NewRecorderManager cfg0))))
     = Some (IOFailure ''permission denied'') \<and>
   fst (AddCamera env_fail ''Cam 1'' ''rtsp://a'' True (NewRecorderManager cfg0))
     = Some (StartFailed ''Cam 1'' (IOFailure ''permission denied'')) \<and>
   GetRecorder ''Cam 1'' (snd (AddCamera env_fail ''Cam 1'' ''rtsp://a'' True (NewRecorderManager cfg0)))
     = Some (New ''rtsp://a'' ''Cam 1'' cfg0)"
proof -
  have h1: "recorders (NewRecorderManager cfg0) ''Cam 1'' = None"
    by (simp add: NewRecorderManager_def)
  have h2: "fst (Start env_fail (New ''rtsp://a'' ''Cam 1'' (rm_config (NewRecorderManager cfg0))))
     = Some (IOFailure ''permission denied'')"
    by (simp add: Start_def New_def env_fail_def)
  have c: "rm_config (NewRecorderManager cfg0) = cfg0"
    by (simp add: NewRecorderManager_def)
  from AddCamera_start_failure_keeps_entry [OF h1 h2] h1 h2 show ?thesis
    by (simp add: c)
qed

subsection \<open>The supervision loop under failures\<close>

lemma recordSegment_fields:
  "recordSegment k r = (res, r', evs) \<Longrightarrow>
     stopCh_closed r' = stopCh_closed r \<and> running r' = running r \<and> config r' = config r \<and>
     cameraName r' = cameraName r \<and> outputDir r' = outputDir r \<and> rtspURL r' = rtspURL r \<and>
     lastError r' = lastError r \<and> startTime r' = startTime r \<and> loops r' = loops r \<and>
     evs = [Launch (attempt_args r k)]"
  by (cases "run k"; cases "ctx_after_run k = Canceled")
     (simp_all add: recordSegment_def Let_def attempt_args_def, auto)

lemma recordSegment_failing:
  "failing_tick k \<Longrightarrow> fst (recordSegment k r) = Some (RuntimeFailure (run_error k))"
  by (cases "run k") (simp_all add: recordSegment_def Let_def failing_tick_def run_error_def)

lemma attempt_args_cong:
  "config r' = config r \<Longrightarrow> cameraName r' = cameraName r \<Longrightarrow> outputDir r' = outputDir r \<Longrightarrow>
   rtspURL r' = rtspURL r \<Longrightarrow> attempt_args r' k = attempt_args r k"
  by (simp add: attempt_args_def segment_args_def segment_filename_def)

lemma iter_failing:
  assumes "failing_tick k" "\<not> stopCh_closed r"
  shows "\<exists>r'. runRecorder_iter k r = (True, r', [Launch (attempt_args r k), Sleep (5 * Second)]) \<and>
          lastError r' = Some (RuntimeFailure (run_error k)) \<and>
          \<not> stopCh_closed r' \<and> config r' = config r \<and> cameraName r' = cameraName r \<and>
          outputDir r' = outputDir r \<and> rtspURL r' = rtspURL r"
proof -
  obtain res r1 evs where rs: "recordSegment k r = (res, r1, evs)"
    by (cases "recordSegment k r") auto
  from recordSegment_failing [OF assms(1), of r] rs
  have res: "res = Some (RuntimeFailure (run_error k))" by simp
  from recordSegment_fields [OF rs] assms rs res show ?thesis
    by (simp add: runRecorder_iter_def failing_tick_def)
qed

lemma iter_live_attempts:
  assumes "ctx_at_select k = CtxLive" "\<not> stopCh_closed r"
  shows "fst (runRecorder_iter k r) \<and> hd (snd (snd (runRecorder_iter k r))) = Launch (attempt_args r k)"
proof -
  obtain res r1 evs where rs: "recordSegment k r = (res, r1, evs)"
    by (cases "recordSegment k r") auto
  from recordSegment_fields [OF rs] assms rs show ?thesis
    by (cases res) (simp_all add: runRecorder_iter_def)
qed


lemma loop_failing:
  assumes "\<forall>k \<in> set ks. failing_tick k" "\<not> stopCh_closed r"
    and "runRecorder ks r = (st, r', evs)"
  shows "st = Looping \<and>
         evs = concat (map (\<lambda>k. [Launch (attempt_args r k), Sleep (5 * Second)]) ks) \<and>
         \<not> stopCh_closed r' \<and> config r' = config r \<and> cameraName r' = cameraName r \<and>
         outputDir r' = outputDir r \<and> rtspURL r' = rtspURL r \<and>
         (ks \<noteq> [] \<longrightarrow> lastError r' = Some (RuntimeFailure (run_error (last ks))))"
  using assms
proof (induction ks arbitrary: r st r' evs)
  case Nil
  then show ?case by simp
next
  case (Cons k ks)
  from Cons.prems have fk: "failing_tick k" and rest: "\<forall>k \<in> set ks. failing_tick k" by simp_all
  from iter_failing [OF fk Cons.prems(2)] obtain r1 where
    it: "runRecorder_iter k r = (True, r1, [Launch (attempt_args r k), Sleep (5 * Second)])"
    and le: "lastError r1 = Some (RuntimeFailure (run_error k))"
    and op: "\<not> stopCh_closed r1"
    and same: "config r1 = config r" "cameraName r1 = cameraName r" "outputDir r1 = outputDir r"
      "rtspURL r1 = rtspURL r"
    by (elim exE conjE)
  obtain st2 r2 evs2 where lp: "runRecorder ks r1 = (st2, r2, evs2)"
    by (cases "runRecorder ks r1") 
  note ih = Cons.IH [OF rest op lp]
  have args: "\<And>k. attempt_args r1 k = attempt_args r k"
    by (rule attempt_args_cong) (rule same)+
  from Cons.prems(3) it lp
  have res: "st = st2" "r' = r2" "evs = [Launch (attempt_args r k), Sleep (5 * Second)] @ evs2"
    by simp_all
  have le3: "lastError r2 = Some (RuntimeFailure (run_error (last (k # ks))))"
  proof (cases ks)
    case Nil
    with lp le show ?thesis by simp
  next
    case (Cons a list)
    with ih show ?thesis by simp
  qed
  have e2: "evs2 = concat (map (\<lambda>k. [Launch (attempt_args r k), Sleep (5 * Second)]) ks)"
    using ih by (simp only: args)
  have c: "config r2 = config r" using ih same by simp
  have n: "cameraName r2 = cameraName r" using ih same by simp
  have d: "outputDir r2 = outputDir r" using ih same by simp
  have u: "rtspURL r2 = rtspURL r" using ih same by simp
  have o: "\<not> stopCh_closed r2" using ih by simp
  have s: "st2 = Looping" using ih by simp
  show ?case
    unfolding res using le3 e2 c n d u o s by simp
qed

text \<open>
  C6. Take a recorder whose stop channel is open and any non-empty run of loop iterations
  on each of which the segment fails (the child exits abnormally or cannot be launched)
  with the context live and not cancelled. Then the loop has not returned: it stands
  before its next iteration. What it did is, for each failure in order, one launch of the
  child followed by one sleep of exactly five seconds; \<open>GetLastError\<close> gives the error of
  the last failure; and on the next iteration, with the context still live, it launches
  a child again. The number of failures is arbitrary.
\<close>

theorem failures_never_end_the_loop:
  assumes "\<not> stopCh_closed r" and "\<forall>k \<in> set ks. failing_tick k" and "ks \<noteq> []"
    and "ctx_at_select k' = CtxLive"
  shows "fst (runRecorder ks r) = Looping \<and>
         snd (snd (runRecorder ks r)) =
           concat (map (\<lambda>k. [Launch (attempt_args r k), Sleep (5 * Second)]) ks) \<and>
         GetLastError (fst (snd (runRecorder ks r))) = Some (RuntimeFailure (run_error (last ks))) \<and>
         fst (runRecorder_iter k' (fst (snd (runRecorder ks r)))) \<and>
         hd (snd (snd (runRecorder_iter k' (fst (snd (runRecorder ks r)))))) = Launch (attempt_args r k')"
proof -
  obtain st r' evs where lp: "runRecorder ks r = (st, r', evs)"
    by (cases "runRecorder ks r")
  note f = loop_failing [OF assms(2) assms(1) lp]
  have op: "\<not> stopCh_closed r'" using f by simp
  have same: "config r' = config r" "cameraName r' = cameraName r" "outputDir r' = outputDir r"
    "rtspURL r' = rtspURL r" using f by simp_all
  have le: "lastError r' = Some (RuntimeFailure (run_error (last ks)))"
    using f assms(3) by simp
  have ev: "evs = concat (map (\<lambda>k. [Launch (attempt_args r k), Sleep (5 * Second)]) ks)"
    using f by simp
  have st: "st = Looping" using f by simp
  have nx: "fst (runRecorder_iter k' r') \<and>
        hd (snd (snd (runRecorder_iter k' r'))) = Launch (attempt_args r k')"
    using iter_live_attempts [OF assms(4) op] attempt_args_cong [OF same] by simp
  show ?thesis
    unfolding lp using st ev le nx by (simp add: GetLastError_def)
qed

theorem failures_never_end_the_loop_witness:
  "\<not> stopCh_closed rec0 \<and> failing_tick tick_fail \<and> failing_tick tick_nolaunch \<and>
   ctx_at_select tick_ok = CtxLive \<and>
   fst (runRecorder [tick_fail, tick_nolaunch, tick_fail] rec0) = Looping \<and>
   snd (snd (runRecorder [tick_fail, tick_nolaunch, tick_fail] rec0)) =
     [Launch (attempt_args rec0 tick_fail), Sleep (5 * Second),
      Launch (attempt_args rec0 tick_nolaunch), Sleep (5 * Second),
      Launch (attempt_args rec0 tick_fail), Sleep (5 * Second)] \<and>
   GetLastError (fst (snd (runRecorder [tick_fail, tick_nolaunch, tick_fail] rec0)))
     = Some (RuntimeFailure ''exit status 1'') \<and>
   fst (runRecorder_iter tick_ok (fst (snd (runRecorder [tick_fail, tick_nolaunch, tick_fail] rec0))))"
proof -
  have h1: "\<not> stopCh_closed rec0" by (simp add: rec0_def New_def)
  have f1: "failing_tick tick_fail" by (simp add: failing_tick_def tick_fail_def)
  have f2: "failing_tick tick_nolaunch" by (simp add: failing_tick_def tick_nolaunch_def)
  have h2: "\<forall>k \<in> set [tick_fail, tick_nolaunch, tick_fail]. failing_tick k"
    using f1 f2 by simp
  have h3: "[tick_fail, tick_nolaunch, tick_fail] \<noteq> []" by simp
  have h4: "ctx_at_select tick_ok = CtxLive" by (simp add: tick_ok_def)
  have e: "run_error tick_fail = ''exit status 1''" by (simp add: run_error_def tick_fail_def)
  from failures_never_end_the_loop [OF h1 h2 h3 h4] h1 f1 f2 h4 e show ?thesis by simp
qed


subsection \<open>A recorder that was stopped cannot be restarted\<close>

lemma Start_keeps_closed: "stopCh_closed r \<Longrightarrow> stopCh_closed (snd (Start env r))"
  by (cases "mkdir_all env (outputDir r)") (simp_all add: Start_def)

lemma Stop_keeps_closed: "stopCh_closed r \<Longrightarrow> stopCh_closed (snd (Stop r))"
  by (simp add: Stop_def)

lemma iter_closed: "stopCh_closed r \<Longrightarrow> runRecorder_iter k r = (False, r, stopFFmpeg r)"
  by (simp add: runRecorder_iter_def)

lemma op_keeps_closed: "stopCh_closed r \<Longrightarrow> stopCh_closed (apply_rec_op op r)"
  by (cases op) (simp_all add: Start_keeps_closed Stop_keeps_closed iter_closed)

lemma ops_keep_closed: "stopCh_closed r \<Longrightarrow> stopCh_closed (apply_rec_ops ops r)"
  unfolding apply_rec_ops_def
  by (induction ops arbitrary: r) (simp_all add: op_keeps_closed)

lemma op_keeps_closed_running:
  "stopCh_closed r \<and> running r \<Longrightarrow> stopCh_closed (apply_rec_op op r) \<and> running (apply_rec_op op r)"
  by (cases op) (simp_all add: Start_def Stop_def iter_closed)

lemma ops_keep_closed_running:
  "stopCh_closed r \<and> running r \<Longrightarrow>
     stopCh_closed (apply_rec_ops ops r) \<and> running (apply_rec_ops ops r)"
  unfolding apply_rec_ops_def
proof (induction ops arbitrary: r)
  case Nil
  then show ?case by simp
next
  case (Cons op ops)
  from op_keeps_closed_running [OF Cons.prems] Cons.IH show ?case by simp
qed

lemma stopFFmpeg_no_Launch: "e \<in> set (stopFFmpeg r) \<Longrightarrow> \<not> is_Launch e"
  by (cases "cmd r") (auto simp: stopFFmpeg_def is_Launch_def split: if_splits)


text \<open>
  C8, as the code has it. Once \<open>Stop\<close> has been called on a recorder that is running, the
  stop channel is closed, and it stays closed under every later operation. A later
  \<open>Start\<close> that passes its own checks (the recorder is not running, the output directory
  can be made) returns success and sets the running flag and the start time; the loop it
  launches returns on its first iteration, having launched no child; and from then on
  \<open>IsRunning\<close> reports true and the channel stays closed, whatever is called.
\<close>

theorem restart_after_Stop_is_dead:
  assumes "running r0"
    and "r = apply_rec_ops ops (snd (Stop r0))"
    and "\<not> running r"
    and "mkdir_all env (outputDir r) = None"
  shows "stopCh_closed (snd (Stop r0)) \<and> stopCh_closed r \<and>
         Start env r = (None, r\<lparr> loops := loops r + 1, running := True, startTime := now env \<rparr>) \<and>
         runRecorder (k # ks) (snd (Start env r))
           = (Exited, snd (Start env r), stopFFmpeg (snd (Start env r))) \<and>
         filter is_Launch (stopFFmpeg (snd (Start env r))) = [] \<and>
         (\<forall>ops'. stopCh_closed (apply_rec_ops ops' (snd (Start env r))) \<and>
                  IsRunning (apply_rec_ops ops' (snd (Start env r))))"
proof -
  have c1: "stopCh_closed (snd (Stop r0))"
    using assms(1) by (simp add: Stop_def)
  have c: "stopCh_closed r"
    unfolding assms(2) by (rule ops_keep_closed [OF c1])
  have s: "Start env r = (None, r\<lparr> loops := loops r + 1, running := True, startTime := now env \<rparr>)"
    using assms(3,4) by (simp add: Start_def)
  have c2: "stopCh_closed (snd (Start env r))"
    by (rule Start_keeps_closed [OF c])
  have r2: "running (snd (Start env r))"
    by (simp add: s)
  have lp: "runRecorder (k # ks) (snd (Start env r))
           = (Exited, snd (Start env r), stopFFmpeg (snd (Start env r)))"
    by (simp add: iter_closed [OF c2])
  have nl: "filter is_Launch (stopFFmpeg (snd (Start env r))) = []"
    by (simp add: filter_empty_conv stopFFmpeg_no_Launch)
  have inv: "\<forall>ops'. stopCh_closed (apply_rec_ops ops' (snd (Start env r))) \<and>
                  IsRunning (apply_rec_ops ops' (snd (Start env r)))"
    using ops_keep_closed_running [of "snd (Start env r)"] c2 r2 by (simp add: IsRunning_def)
  from c1 c s lp nl inv show ?thesis by blast
qed

theorem restart_after_Stop_is_dead_witness:
  "running (snd (Start env_ok rec0)) \<and>
   \<not> running (apply_rec_ops [OpIsRunning, OpLoopIter tick_ok] (snd (Stop (snd (Start env_ok rec0))))) \<and>
   mkdir_all env_ok (outputDir (apply_rec_ops [OpIsRunning, OpLoopIter tick_ok] (snd (Stop (snd (Start env_ok rec0)))))) = None \<and>
   stopCh_closed (snd (Stop (snd (Start env_ok rec0)))) \<and>
   fst (Start env_ok (apply_rec_ops [OpIsRunning, OpLoopIter tick_ok] (snd (Stop (snd (Start env_ok rec0)))))) = None \<and>
   fst (runRecorder [tick_ok, tick_ok]
      (snd (Start env_ok (apply_rec_ops [OpIsRunning, OpLoopIter tick_ok] (snd (Stop (snd (Start env_ok rec0)))))))) = Exited \<and>
   IsRunning (apply_rec_ops [OpStop, OpLoopIter tick_ok]
      (snd (Start env_ok (apply_rec_ops [OpIsRunning, OpLoopIter tick_ok] (snd (Stop (snd (Start env_ok rec0))))))))"
proof -
  define r0 where "r0 = snd (Start env_ok rec0)"
  define r where "r = apply_rec_ops [OpIsRunning, OpLoopIter tick_ok] (snd (Stop r0))"
  have h1: "running r0" by (simp add: r0_def Start_def rec0_def New_def env_ok_def)
  have h0: "\<not> stopCh_closed r0" by (simp add: r0_def Start_def rec0_def New_def env_ok_def)
  have st: "snd (Stop r0) = r0\<lparr> stopCh_closed := True, running := False \<rparr>"
    using h1 h0 by (simp add: Stop_def)
  have req: "r = r0\<lparr> stopCh_closed := True, running := False \<rparr>"
    unfolding r_def st by (simp add: apply_rec_ops_def runRecorder_iter_def)
  have h3: "\<not> running r" unfolding req by simp
  have h4: "mkdir_all env_ok (outputDir r) = None" by (simp add: env_ok_def)
  note t = restart_after_Stop_is_dead [OF h1 r_def h3 h4, of tick_ok "[tick_ok]"]
  have a: "stopCh_closed (snd (Stop r0))" using t by blast
  have b: "fst (Start env_ok r) = None" using t by (metis fst_conv)
  have c: "fst (runRecorder [tick_ok, tick_ok] (snd (Start env_ok r))) = Exited"
    using t by (metis fst_conv)
  have d: "IsRunning (apply_rec_ops [OpStop, OpLoopIter tick_ok] (snd (Start env_ok r)))"
    using t by blast
  from h1 h3 h4 a b c d show ?thesis unfolding r_def r0_def by blast
qed


text \<open>
  The claim as the specification words it speaks of any call of \<open>Stop\<close>. A \<open>Stop\<close> on a
  recorder that is not running returns at once and leaves the channel open; the loop of a
  later \<open>Start\<close> then does launch a child.
\<close>

theorem Stop_on_idle_recorder_counterexample:
  "\<not> stopCh_closed (snd (Stop rec0)) \<and>
   fst (Start env_ok (snd (Stop rec0))) = None \<and>
   fst (runRecorder_iter tick_ok (snd (Start env_ok (snd (Stop rec0))))) \<and>
   is_Launch (hd (snd (snd (runRecorder_iter tick_ok (snd (Start env_ok (snd (Stop rec0))))))))"
proof -
  have s: "Stop rec0 = (None, rec0)" by (simp add: Stop_def rec0_def New_def)
  have o: "\<not> stopCh_closed rec0" by (simp add: rec0_def New_def)
  have st: "fst (Start env_ok rec0) = None"
    by (simp add: Start_def rec0_def New_def env_ok_def)
  have o2: "\<not> stopCh_closed (snd (Start env_ok rec0))"
    by (simp add: Start_def rec0_def New_def env_ok_def)
  have live: "ctx_at_select tick_ok = CtxLive" by (simp add: tick_ok_def)
  from iter_live_attempts [OF live o2] o st show ?thesis
    by (simp add: s is_Launch_def)
qed
section \<open>Properties of the streaming manager\<close>

text \<open>
  C10. \<open>MJPEGManager.Start\<close> for a name that has a streamer already returns nil and
  returns the manager exactly as it was: no second streamer, the same streamer, frame slot
  and condition variable under the name, and no goroutine launched.
\<close>

theorem MJPEGManager_Start_existing_noop:
  "streamers m name = Some s \<Longrightarrow> MJPEGManager_Start name url m = (None, m)"
  by (simp add: MJPEGManager_Start_def)

theorem MJPEGManager_Start_existing_noop_witness:
  "streamers (snd (MJPEGManager_Start ''Cam 1'' ''rtsp://a'' NewMJPEGManager)) ''Cam 1''
     = Some (NewMJPEGStreamer ''rtsp://a'') \<and>
   MJPEGManager_Start ''Cam 1'' ''rtsp://b'' (snd (MJPEGManager_Start ''Cam 1'' ''rtsp://a'' NewMJPEGManager))
     = (None, snd (MJPEGManager_Start ''Cam 1'' ''rtsp://a'' NewMJPEGManager))"
proof -
  have h: "streamers (snd (MJPEGManager_Start ''Cam 1'' ''rtsp://a'' NewMJPEGManager)) ''Cam 1''
     = Some (NewMJPEGStreamer ''rtsp://a'')"
    by (simp add: MJPEGManager_Start_def NewMJPEGManager_def)
  from h MJPEGManager_Start_existing_noop [OF h, of "''rtsp://b''"] show ?thesis by simp
qed


subsection \<open>A frame stored after the camera is deregistered\<close>

lemma callback_store_overwrites:
  "callback_store name f' (callback_store name f m) = callback_store name f' m"
  by (simp add: callback_store_def)

lemma callback_store_GetFrame: "GetFrame name (callback_store name f m) = Some f"
  by (simp add: callback_store_def GetFrame_def)

lemma Start_then_streamer:
  "apply_mjpeg_ops [MStart ''Cam 1'' ''rtsp://a'', MStreamerStart ''Cam 1'' launch_ok] NewMJPEGManager =
     \<lparr> streamers = [''Cam 1'' \<mapsto>
          \<lparr> s_rtspURL = ''rtsp://a'',
            s_cmd = Some \<lparr> cmd_args = streamer_args (NewMJPEGStreamer ''rtsp://a''), cmd_process = True \<rparr>,
            s_stopCh_closed = False, s_running = True \<rparr>],
       frames = [''Cam 1'' \<mapsto> []], conds = [''Cam 1'' \<mapsto> 0],
       allocated = 1, spawned = 1 \<rparr>"
  by (simp add: apply_mjpeg_ops_def MJPEGManager_Start_def NewMJPEGManager_def
      MJPEGStreamer_Start_def NewMJPEGStreamer_def launch_ok_def Let_def)

text \<open>
  C7. A frame callback that has looked the condition variable of its camera up, and has
  given the lock up, stores its frame also when \<open>Stop\<close> has deregistered the camera in
  between. For the camera \<open>Cam 1\<close>, registered and with its streamer started: the lookup of
  the callback finds the condition variable; \<open>Stop\<close> then returns normally and removes
  the streamer, the frame slot and the condition variable, so that \<open>GetFrame\<close> reports
  not found; the callback then stores its frame, and \<open>GetFrame\<close> for the name reports
  that frame as found, while \<open>GetCond\<close> reports not found and no streamer is registered
  under the name. A further \<open>Stop\<close> finds no streamer and leaves the slot where it is.
  So deregistering does not keep the frame slot of the camera removed.
\<close>

theorem callback_store_after_Stop:
  "callback_lookup ''Cam 1''
     (apply_mjpeg_ops [MStart ''Cam 1'' ''rtsp://a'', MStreamerStart ''Cam 1'' launch_ok]
        NewMJPEGManager) = Some 0 \<and>
   fst (MJPEGManager_Stop ''Cam 1''
     (apply_mjpeg_ops [MStart ''Cam 1'' ''rtsp://a'', MStreamerStart ''Cam 1'' launch_ok,
        MCallbackLookup ''Cam 1''] NewMJPEGManager)) = None \<and>
   GetFrame ''Cam 1''
     (apply_mjpeg_ops [MStart ''Cam 1'' ''rtsp://a'', MStreamerStart ''Cam 1'' launch_ok,
        MCallbackLookup ''Cam 1'', MStop ''Cam 1''] NewMJPEGManager) = None \<and>
   GetFrame ''Cam 1''
     (apply_mjpeg_ops [MStart ''Cam 1'' ''rtsp://a'', MStreamerStart ''Cam 1'' launch_ok,
        MCallbackLookup ''Cam 1'', MStop ''Cam 1'', MCallbackStore ''Cam 1'' frame_a]
        NewMJPEGManager) = Some frame_a \<and>
   GetCond ''Cam 1''
     (apply_mjpeg_ops [MStart ''Cam 1'' ''rtsp://a'', MStreamerStart ''Cam 1'' launch_ok,
        MCallbackLookup ''Cam 1'', MStop ''Cam 1'', MCallbackStore ''Cam 1'' frame_a]
        NewMJPEGManager) = None \<and>
   streamers
     (apply_mjpeg_ops [MStart ''Cam 1'' ''rtsp://a'', MStreamerStart ''Cam 1'' launch_ok,
        MCallbackLookup ''Cam 1'', MStop ''Cam 1'', MCallbackStore ''Cam 1'' frame_a]
        NewMJPEGManager) ''Cam 1'' = None \<and>
   GetFrame ''Cam 1''
     (apply_mjpeg_ops [MStart ''Cam 1'' ''rtsp://a'', MStreamerStart ''Cam 1'' launch_ok,
        MCallbackLookup ''Cam 1'', MStop ''Cam 1'', MCallbackStore ''Cam 1'' frame_a,
        MStop ''Cam 1''] NewMJPEGManager) = Some frame_a"
proof -
  define m1 where
    "m1 = apply_mjpeg_ops [MStart ''Cam 1'' ''rtsp://a'', MStreamerStart ''Cam 1'' launch_ok]
            NewMJPEGManager"
  note m1 = Start_then_streamer [folded m1_def]
  have split: "apply_mjpeg_ops (MStart ''Cam 1'' ''rtsp://a'' # MStreamerStart ''Cam 1'' launch_ok # rest)
                 NewMJPEGManager = apply_mjpeg_ops rest m1" for rest
    by (simp add: m1_def apply_mjpeg_ops_def)
  have look: "callback_lookup ''Cam 1'' m1 = Some 0"
    by (simp add: m1 callback_lookup_def)
  have stop: "MJPEGManager_Stop ''Cam 1'' m1 =
      (None, m1\<lparr> streamers := Map.empty, frames := Map.empty, conds := Map.empty \<rparr>)"
    by (simp add: m1 MJPEGManager_Stop_def MJPEGStreamer_Stop_def)
  define m2 where "m2 = m1\<lparr> streamers := Map.empty, frames := Map.empty, conds := Map.empty \<rparr>"
  have m2: "streamers m2 = Map.empty" "frames m2 = Map.empty" "conds m2 = Map.empty"
    by (simp_all add: m2_def)
  have stop2: "MJPEGManager_Stop ''Cam 1'' (callback_store ''Cam 1'' frame_a m2) =
      (None, callback_store ''Cam 1'' frame_a m2)"
    by (simp add: MJPEGManager_Stop_def callback_store_def m2)
  show ?thesis
    unfolding split
    by (simp add: apply_mjpeg_ops_def look stop m2_def [symmetric] stop2 callback_store_GetFrame)
       (simp add: GetFrame_def GetCond_def callback_store_def m2)
qed
section \<open>Properties of the frame demuxer\<close>

lemma match_at_iff:
  "i + length p \<le> length d \<Longrightarrow> match_at d p i = (take (length p) (drop i d) = p)"
  unfolding match_at_def by (auto simp: list_eq_iff_nth_eq)

lemma match_at_append:
  "match_at (u @ p @ w) p (length u)"
  by (simp add: match_at_def nth_append)

lemma match_imp_sublist:
  assumes "i + length p \<le> length d" "match_at d p i"
  shows "sublist p (take (i + length p) d)"
proof -
  have "take (i + length p) d = take i d @ take (length p) (drop i d)"
    by (simp add: take_add)
  also have "\<dots> = take i d @ p"
    using assms by (simp add: match_at_iff)
  finally show ?thesis by simp
qed

lemma bytesIndex_from_none:
  "(\<And>j. i \<le> j \<Longrightarrow> j + length p \<le> length d \<Longrightarrow> \<not> match_at d p j) \<Longrightarrow>
     bytesIndex_from d p i = - 1"
proof (induction d p i rule: bytesIndex_from.induct)
  case (1 d p i)
  show ?case
  proof (cases "int i \<le> int (length d) - int (length p)")
    case False
    then show ?thesis by (simp add: bytesIndex_from.simps [of d p i])
  next
    case True
    then have r: "i + length p \<le> length d" by simp
    from "1.prems" [OF le_refl r] have nm: "\<not> match_at d p i" .
    have "bytesIndex_from d p (i + 1) = - 1"
    proof (rule "1.IH" [OF True nm])
      fix j assume "i + 1 \<le> j" "j + length p \<le> length d"
      then show "\<not> match_at d p j" using "1.prems" [of j] by simp
    qed
    with True nm show ?thesis by (simp add: bytesIndex_from.simps [of d p i])
  qed
qed

lemma bytesIndex_from_first:
  "i \<le> k \<Longrightarrow> k + length p \<le> length d \<Longrightarrow> match_at d p k \<Longrightarrow>
   (\<And>j. i \<le> j \<Longrightarrow> j < k \<Longrightarrow> \<not> match_at d p j) \<Longrightarrow>
     bytesIndex_from d p i = int k"
proof (induction d p i rule: bytesIndex_from.induct)
  case (1 d p i)
  from "1.prems"(1,2) have True: "int i \<le> int (length d) - int (length p)" by simp
  show ?case
  proof (cases "i = k")
    case eq: True
    from eq "1.prems"(3) have m: "match_at d p i" by simp
    with True have "bytesIndex_from d p i = int i"
      by (simp add: bytesIndex_from.simps [of d p i])
    with eq show ?thesis by simp
  next
    case neq: False
    with "1.prems"(1) have lt: "i < k" by simp
    from "1.prems"(4) [OF le_refl lt] have nm: "\<not> match_at d p i" .
    have "bytesIndex_from d p (i + 1) = int k"
    proof (rule "1.IH" [OF True nm _ "1.prems"(2,3)])
      show "i + 1 \<le> k" using lt by simp
    next
      fix j assume "i + 1 \<le> j" "j < k"
      then show "\<not> match_at d p j" using "1.prems"(4) [of j] by simp
    qed
    with True nm show ?thesis by (simp add: bytesIndex_from.simps [of d p i])
  qed
qed

lemma bytesIndex_from_found:
  "bytesIndex_from d p i \<noteq> - 1 \<Longrightarrow>
     \<exists>k. bytesIndex_from d p i = int k \<and> i \<le> k \<and> k + length p \<le> length d \<and> match_at d p k"
proof (induction d p i rule: bytesIndex_from.induct)
  case (1 d p i)
  show ?case
  proof (cases "int i \<le> int (length d) - int (length p)")
    case False
    with "1.prems" show ?thesis by (simp add: bytesIndex_from.simps [of d p i])
  next
    case True
    show ?thesis
    proof (cases "match_at d p i")
      case m: True
      with True have "bytesIndex_from d p i = int i"
        by (simp add: bytesIndex_from.simps [of d p i])
      with True m show ?thesis by auto
    next
      case m: False
      with True have eq: "bytesIndex_from d p i = bytesIndex_from d p (i + 1)"
        by (simp add: bytesIndex_from.simps [of d p i])
      with "1.prems" have "bytesIndex_from d p (i + 1) \<noteq> - 1" by simp
      from "1.IH" [OF True m this] obtain k where
        "bytesIndex_from d p (i + 1) = int k" "i + 1 \<le> k" "k + length p \<le> length d" "match_at d p k"
        by blast
      with eq show ?thesis by auto
    qed
  qed
qed

text \<open>Where \<open>bytesIndex\<close> finds a pattern, in terms of \<open>sublist\<close>.\<close>

lemma bytesIndex_first_occurrence:
  assumes "\<not> sublist p (u @ butlast p)" "p \<noteq> []"
  shows "bytesIndex (u @ p @ w) p = int (length u)"
  unfolding bytesIndex_def
proof (rule bytesIndex_from_first)
  show "0 \<le> length u" by simp
  show "length u + length p \<le> length (u @ p @ w)" by simp
  show "match_at (u @ p @ w) p (length u)" by (rule match_at_append)
next
  fix j assume j: "j < length u"
  show "\<not> match_at (u @ p @ w) p j"
  proof
    assume m: "match_at (u @ p @ w) p j"
    have r: "j + length p \<le> length (u @ p @ w)" using j by simp
    from match_imp_sublist [OF r m]
    have s: "sublist p (take (j + length p) (u @ p @ w))" .
    have le: "j + length p \<le> length (u @ butlast p)" using j assms(2) by (cases p rule: rev_cases) simp_all
    have X: "u @ p @ w = (u @ butlast p) @ (last p # w)"
      using assms(2) by (simp add: append_butlast_last_id [symmetric] del: append_butlast_last_id)
    have T: "n \<le> length xs \<Longrightarrow> take n (xs @ ys) = take n xs" for n and xs ys :: "byte list"
      by simp
    have "take (j + length p) (u @ p @ w) = take (j + length p) (u @ butlast p)"
      by (subst X) (rule T [OF le])
    with s have "sublist p (take (j + length p) (u @ butlast p))" by simp
    then have "sublist p (u @ butlast p)"
      by (meson sublist_order.order_trans sublist_take)
    with assms(1) show False by contradiction
  qed
qed

lemma bytesIndex_absent:
  assumes "\<not> sublist p d"
  shows "bytesIndex d p = - 1"
  unfolding bytesIndex_def
proof (rule bytesIndex_from_none)
  fix j assume r: "j + length p \<le> length d"
  show "\<not> match_at d p j"
  proof
    assume "match_at d p j"
    from match_imp_sublist [OF r this] have "sublist p (take (j + length p) d)" .
    then have "sublist p d" by (meson sublist_order.order_trans sublist_take)
    with assms show False by contradiction
  qed
qed


lemma SOI_not_across:
  assumes "\<not> sublist SOI junk"
  shows "\<not> sublist SOI (junk @ butlast SOI)"
proof -
  have b: "butlast SOI = [0xFF]" by (simp add: SOI_def)
  have c: "SOI = [0xFF] @ [0xD8]" by (simp add: SOI_def)
  have ns: "\<not> suffix SOI (junk @ [0xFF])"
    unfolding c snoc_suffix_snoc by simp
  show ?thesis
    unfolding b sublist_snoc using assms ns by blast
qed

lemma is_frame_decomp:
  assumes "is_frame f"
  shows "\<exists>body. f = SOI @ body @ EOI \<and> \<not> sublist EOI ((SOI @ body) @ butlast EOI)"
proof -
  from assms have len: "4 \<le> length f" and st: "take 2 f = SOI"
    and en: "drop (length f - 2) f = EOI" and no: "\<not> sublist EOI (butlast f)"
    by (simp_all add: is_frame_def)
  define body where "body = take (length f - 4) (drop 2 f)"
  have "drop 2 f = body @ drop (length f - 4) (drop 2 f)"
    unfolding body_def by (rule append_take_drop_id [symmetric])
  also have "drop (length f - 4) (drop 2 f) = drop (length f - 2) f"
  proof -
    have i: "length f - 4 + 2 = length f - 2" using len by arith
    show ?thesis by (simp only: drop_drop i)
  qed
  finally have d2: "drop 2 f = body @ EOI" by (simp add: en)
  have "f = take 2 f @ drop 2 f" by simp
  with st d2 have f: "f = SOI @ body @ EOI" by simp
  have "butlast f = (SOI @ body) @ butlast EOI"
    by (subst f) (simp add: EOI_def butlast_append)
  with no f show ?thesis by auto
qed

lemma scan_frame:
  assumes "\<not> sublist SOI junk" "is_frame f"
  shows "scan (junk @ f @ tail) = (f # fst (scan tail), snd (scan tail))"
proof -
  from is_frame_decomp [OF assms(2)] obtain body where
    f: "f = SOI @ body @ EOI" and no: "\<not> sublist EOI ((SOI @ body) @ butlast EOI)"
    by blast
  define acc where "acc = junk @ f @ tail"
  have acc1: "acc = junk @ SOI @ (body @ EOI @ tail)" by (simp add: acc_def f)
  have si: "bytesIndex acc SOI = int (length junk)"
    unfolding acc1
    by (rule bytesIndex_first_occurrence [OF SOI_not_across [OF assms(1)]]) (simp add: SOI_def)
  have dr: "drop (length junk) acc = (SOI @ body) @ EOI @ tail" by (simp add: acc1)
  have ei: "bytesIndex (drop (length junk) acc) EOI = int (length (SOI @ body))"
    unfolding dr
    by (rule bytesIndex_first_occurrence [OF no]) (simp add: EOI_def)
  have l2: "length SOI = 2" "length EOI = 2" by (simp_all add: SOI_def EOI_def)
  have lf: "length f = length body + 4" by (simp add: f l2)
  have e': "nat (int (length (SOI @ body)) + int (length junk) + 2) = length junk + length f"
    by (simp add: lf l2)
  have fr: "take (length f) (drop (length junk) acc) = f"
    by (simp add: acc_def)
  have rs: "drop (length junk + length f) acc = tail"
    by (simp add: acc_def)
  have "scan acc = (case scan tail of (fs, r) \<Rightarrow> (f # fs, r))"
    by (subst scan.simps) (simp add: Let_def si ei e' fr rs del: length_append)
  then show ?thesis
    unfolding acc_def by (simp add: case_prod_beta)
qed

lemma scan_partial:
  assumes "\<not> sublist SOI junk" "take 2 p = SOI" "\<not> sublist EOI p"
  shows "scan (junk @ p) = ([], junk @ p)"
proof -
  have p: "p = SOI @ drop 2 p" using assms(2) by (metis append_take_drop_id)
  define p' where "p' = drop 2 p"
  have acc1: "junk @ p = junk @ SOI @ p'" using p by (simp add: p'_def)
  have si: "bytesIndex (junk @ p) SOI = int (length junk)"
    unfolding acc1
    by (rule bytesIndex_first_occurrence [where w = p', OF SOI_not_across [OF assms(1)]])
       (simp add: SOI_def)
  have ei: "bytesIndex p EOI = - 1"
    by (rule bytesIndex_absent [OF assms(3)])
  show ?thesis
    by (subst scan.simps) (simp add: Let_def si ei)
qed

lemma EOI_after_SOI:
  assumes "match_at (SOI @ t) EOI e"
  shows "2 \<le> e"
proof (rule ccontr)
  assume "\<not> 2 \<le> e"
  then have e: "e = 0 \<or> e = 1" by auto
  have l: "length EOI = 2" by (simp add: EOI_def)
  from assms have all: "\<forall>j<2. (SOI @ t) ! (e + j) = EOI ! j"
    by (simp add: match_at_def l)
  from all [rule_format, of 0] all [rule_format, of 1]
  have a: "(SOI @ t) ! (e + 0) = EOI ! 0" "(SOI @ t) ! (e + 1) = EOI ! 1"
    by simp_all
  from e show False
  proof
    assume "e = 0"
    with a(2) show False by (simp add: SOI_def EOI_def)
  next
    assume "e = 1"
    with a(1) show False by (simp add: SOI_def EOI_def)
  qed
qed


lemma scan_no_frame:
  assumes "\<not> has_frame rest"
  shows "fst (scan rest) = []"
proof (cases "bytesIndex rest SOI = - 1")
  case True
  then show ?thesis by (subst scan.simps) (simp add: Let_def)
next
  case False
  from bytesIndex_from_found [of rest SOI 0] False obtain k where
    k: "bytesIndex rest SOI = int k" "k + length SOI \<le> length rest" "match_at rest SOI k"
    unfolding bytesIndex_def by blast
  define t where "t = drop 2 (drop k rest)"
  have "take (length SOI) (drop k rest) = SOI"
    using match_at_iff [OF k(2)] k(3) by simp
  moreover have "length SOI = 2" by (simp add: SOI_def)
  ultimately have "take 2 (drop k rest) = SOI" by (simp only:)
  then have dk: "drop k rest = SOI @ t"
    unfolding t_def by (metis append_take_drop_id)
  have rest: "rest = take k rest @ SOI @ t"
    using dk by (metis append_take_drop_id)
  show ?thesis
  proof (cases "bytesIndex (drop k rest) EOI = - 1")
    case True
    with k(1) False show ?thesis by (subst scan.simps) (simp add: Let_def)
  next
    case nf: False
    from bytesIndex_from_found [of "drop k rest" EOI 0] nf obtain e where
      e: "e + length EOI \<le> length (drop k rest)" "match_at (drop k rest) EOI e"
      unfolding bytesIndex_def by blast
    from e(2) have ge: "2 \<le> e" unfolding dk by (rule EOI_after_SOI)
    have "take (length EOI) (drop e (drop k rest)) = EOI"
      using match_at_iff [OF e(1)] e(2) by simp
    then have A: "take (length EOI) (drop e (SOI @ t)) = EOI" by (simp only: dk)
    have B: "drop e (SOI @ t) = drop (e - 2) t"
    proof -
      have "length SOI = 2" by (simp add: SOI_def)
      with ge show ?thesis by (simp only: drop_append) simp
    qed
    from A have te: "take (length EOI) (drop (e - 2) t) = EOI" unfolding B .
    have "t = take (e - 2) t @ drop (e - 2) t" by simp
    also have "drop (e - 2) t = take (length EOI) (drop (e - 2) t) @ drop (length EOI) (drop (e - 2) t)"
      by (rule append_take_drop_id [symmetric])
    finally have "t = take (e - 2) t @ EOI @ drop (length EOI) (drop (e - 2) t)"
      by (simp only: te)
    with rest have "rest = take k rest @ SOI @ take (e - 2) t @ EOI @ drop (length EOI) (drop (e - 2) t)"
      by simp
    then have "has_frame rest" unfolding has_frame_def by blast
    with assms show ?thesis by contradiction
  qed
qed

lemma has_frame_imp_sublist: "has_frame xs \<Longrightarrow> sublist EOI xs"
  unfolding has_frame_def sublist_def by (metis append.assoc)


text \<open>
  C4. Let the accumulator with the chunk appended be some bytes without a start marker,
  then two complete frames \<open>f1\<close> and \<open>f2\<close> back to back, then bytes that hold no complete
  frame. Then this pass of the demuxer hands exactly \<open>f1\<close> and then \<open>f2\<close> to the callback:
  each is the byte range from its start marker through its end marker. And let the
  accumulator with a chunk \<open>c1\<close> appended end in a proper prefix \<open>p\<close> of a frame, start
  marker included, after bytes without a start marker. Then the pass on \<open>c1\<close> emits no
  frame and keeps all the bytes, and the pass on a later chunk that brings the remainder
  \<open>q\<close> of the frame emits exactly the frame \<open>p @ q\<close>.
\<close>

theorem demuxer_frames:
  assumes "accumulator @ chunk = junk @ f1 @ f2 @ rest"
    and "\<not> sublist SOI junk" and "is_frame f1" and "is_frame f2" and "\<not> has_frame rest"
    and "acc' @ c1 = junk' @ p"
    and "\<not> sublist SOI junk'" and "2 \<le> length p" and "q \<noteq> []" and "is_frame (p @ q)"
    and "c2 = q @ rest'" and "\<not> has_frame rest'"
  shows "fst (feed accumulator chunk) = [f1, f2] \<and>
         readFrames_from accumulator [ReadChunk chunk] = [f1, f2] \<and>
         feed acc' c1 = ([], acc' @ c1) \<and>
         readFrames_from acc' [ReadChunk c1] = [] \<and>
         readFrames_from acc' [ReadChunk c1, ReadChunk c2] = [p @ q]"
proof -
  have no_soi_nil: "\<not> sublist SOI []" by (simp add: SOI_def)
  have s2: "scan (f2 @ rest) = (f2 # fst (scan rest), snd (scan rest))"
    using scan_frame [OF no_soi_nil assms(4), of rest] by simp
  have s1: "scan (junk @ f1 @ f2 @ rest) = (f1 # fst (scan (f2 @ rest)), snd (scan (f2 @ rest)))"
    by (rule scan_frame [OF assms(2,3)])
  have two: "fst (feed accumulator chunk) = [f1, f2]"
    unfolding feed_def assms(1) s1 by (simp add: s2 scan_no_frame [OF assms(5)])
  have two': "readFrames_from accumulator [ReadChunk chunk] = [f1, f2]"
    using two by (simp add: case_prod_beta)
  have tp: "take 2 p = SOI"
  proof -
    from assms(10) have "take 2 (p @ q) = SOI" by (simp add: is_frame_def)
    with assms(8) show ?thesis by simp
  qed
  have np: "\<not> sublist EOI p"
  proof
    assume "sublist EOI p"
    moreover have "butlast (p @ q) = p @ butlast q" using assms(9) by (simp add: butlast_append)
    ultimately have "sublist EOI (butlast (p @ q))"
      by (metis sublist_order.order_trans sublist_append_rightI)
    with assms(10) show False by (simp add: is_frame_def)
  qed
  have one: "feed acc' c1 = ([], acc' @ c1)"
    unfolding feed_def assms(6) by (rule scan_partial [OF assms(7) tp np])
  have one': "readFrames_from acc' [ReadChunk c1] = []"
    by (simp add: one)
  have "scan (junk' @ (p @ q) @ rest') = ((p @ q) # fst (scan rest'), snd (scan rest'))"
    by (rule scan_frame [OF assms(7,10)])
  then have "fst (scan ((acc' @ c1) @ c2)) = [p @ q]"
    by (simp add: assms(6,11) scan_no_frame [OF assms(12)])
  moreover have "scan (acc' @ c1) = ([], acc' @ c1)"
    using one by (simp only: feed_def)
  ultimately have three: "readFrames_from acc' [ReadChunk c1, ReadChunk c2] = [p @ q]"
    by (simp add: feed_def case_prod_beta)
  from two two' one one' three show ?thesis by blast
qed

theorem demuxer_frames_witness:
  "readFrames_from [0x00, 0xFF, 0xD8, 0x01]
     [ReadChunk ([0x02, 0xFF, 0xD9] @ frame_b @ [0xFF, 0xD8, 0x07])] = [frame_a, frame_b] \<and>
   readFrames_from [] [ReadChunk [0x00, 0xFF, 0xD8, 0x01]] = [] \<and>
   readFrames_from [] [ReadChunk [0x00, 0xFF, 0xD8, 0x01], ReadChunk [0x02, 0xFF, 0xD9]] = [frame_a]"
proof -
  have sub: "\<not> sublist SOI [0x00]"
    by (simp add: SOI_def sublist_code(3))
  have fa: "is_frame frame_a"
    by (simp add: is_frame_def frame_a_def SOI_def EOI_def sublist_code(3))
  have fb: "is_frame frame_b"
    by (simp add: is_frame_def frame_b_def SOI_def EOI_def sublist_code(3))
  have nf: "\<not> has_frame [0xFF, 0xD8, 0x07]"
  proof
    assume "has_frame [0xFF, 0xD8, 0x07]"
    then have "sublist EOI [0xFF, 0xD8, 0x07]" by (rule has_frame_imp_sublist)
    then show False by (simp add: EOI_def sublist_code(3))
  qed
  have nf0: "\<not> has_frame []" by (simp add: has_frame_def SOI_def)
  have h1: "[0x00, 0xFF, 0xD8, 0x01] @ ([0x02, 0xFF, 0xD9] @ frame_b @ [0xFF, 0xD8, 0x07])
      = [0x00] @ frame_a @ frame_b @ [0xFF, 0xD8, 0x07]"
    by (simp add: frame_a_def)
  have h6: "[] @ [0x00, 0xFF, 0xD8, 0x01] = [0x00] @ [0xFF, 0xD8, 0x01 :: byte]" by simp
  have h8: "2 \<le> length [0xFF, 0xD8, 0x01 :: byte]" by simp
  have h9: "[0x02, 0xFF, 0xD9 :: byte] \<noteq> []" by simp
  have pq: "[0xFF, 0xD8, 0x01] @ [0x02, 0xFF, 0xD9] = frame_a" by (simp add: frame_a_def)
  have h10: "is_frame ([0xFF, 0xD8, 0x01] @ [0x02, 0xFF, 0xD9])" unfolding pq by (rule fa)
  have h11: "[0x02, 0xFF, 0xD9 :: byte] = [0x02, 0xFF, 0xD9] @ []" by simp
  from demuxer_frames [OF h1 sub fa fb nf h6 sub h8 h9 h10 h11 nf0]
  show ?thesis unfolding pq by blast
qed
section \<open>Properties of the retention sweep\<close>






















section \<open>Properties of the segment file names\<close>

subsection \<open>Digits and the order of strings\<close>

lemma zero_char: "CHR ''0'' = char_of (48::nat)"
proof -
  have "of_char CHR ''0'' = (48::nat)" by simp
  then have "char_of (48::nat) = char_of (of_char CHR ''0'' :: nat)" by simp
  then show ?thesis by (simp only: char_of_char)
qed

lemma of_char_digit: "d < 10 \<Longrightarrow> of_char (digit_char d) = (48 + d :: nat)"
  by (simp add: digit_char_def)

lemma digit_char_less: "a < 10 \<Longrightarrow> b < 10 \<Longrightarrow> (digit_char a < digit_char b) = (a < b)"
  by (simp add: less_char_def of_char_digit)

lemma digit_char_eq: "a < 10 \<Longrightarrow> b < 10 \<Longrightarrow> (digit_char a = digit_char b) = (a = b)"
proof
  assume "a < 10" "b < 10" "digit_char a = digit_char b"
  then have "(of_char (digit_char a) :: nat) = of_char (digit_char b)" by simp
  with \<open>a < 10\<close> \<open>b < 10\<close> show "a = b" by (simp add: of_char_digit)
qed simp


lemma digit_char_0: "digit_char 0 = CHR ''0''"
  by (simp add: digit_char_def zero_char)

lemma pad_nat2: "n < 100 \<Longrightarrow> pad_nat n 2 = [digit_char (n div 10), digit_char (n mod 10)]"
proof (cases "n < 10")
  case True
  then have "digits n = [digit_char n]" by (simp add: digits.simps [of n])
  with True show ?thesis by (simp add: pad_nat_def digit_char_0)
next
  case False
  assume "n < 100"
  with False have "n div 10 < 10" by simp
  then have "digits (n div 10) = [digit_char (n div 10)]" by (simp add: digits.simps [of "n div 10"])
  with False have "digits n = [digit_char (n div 10), digit_char (n mod 10)]"
    by (simp add: digits.simps [of n])
  then show ?thesis by (simp add: pad_nat_def)
qed

lemma append_less_iff:
  "length a = length b \<Longrightarrow> (a @ x < b @ y) = (a < b \<or> a = b \<and> x < y)"
  for a b x y :: string
  by (induction a b rule: list_induct2) auto

lemma append_same_less: "(p @ x < p @ y) = (x < y)" for p x y :: string
  by (induction p) auto

lemma lex_divmod:
  fixes a b k :: nat
  assumes "0 < k"
  shows "(a div k < b div k \<or> a div k = b div k \<and> a mod k < b mod k) = (a < b)"
proof -
  define qa ra qb rb where "qa = a div k" and "ra = a mod k" and "qb = b div k" and "rb = b mod k"
  have a: "k * qa + ra = a" and b: "k * qb + rb = b" by (simp_all add: qa_def ra_def qb_def rb_def)
  have ma: "ra < k" and mb: "rb < k" using assms by (simp_all add: ra_def rb_def)
  have "(qa < qb \<or> qa = qb \<and> ra < rb) = (k * qa + ra < k * qb + rb)"
  proof (cases qa qb rule: linorder_cases)
    case less
    then have "Suc qa \<le> qb" by simp
    then have "k * Suc qa \<le> k * qb" by (rule mult_le_mono2)
    then have "k * qa + k \<le> k * qb" by simp
    with ma have "k * qa + ra < k * qb + rb" by linarith
    with less show ?thesis by simp
  next
    case equal
    then show ?thesis by simp
  next
    case greater
    then have "Suc qb \<le> qa" by simp
    then have "k * Suc qb \<le> k * qa" by (rule mult_le_mono2)
    then have "k * qb + k \<le> k * qa" by simp
    with mb have "k * qb + rb < k * qa + ra" by linarith
    with greater show ?thesis by simp
  qed
  then show ?thesis
    unfolding a b unfolding qa_def ra_def qb_def rb_def .
qed

lemma eq_divmod:
  fixes a b k :: nat
  shows "(a div k = b div k \<and> a mod k = b mod k) = (a = b)"
  by (metis div_mult_mod_eq)

lemma pad2_less:
  assumes "a < 100" "b < 100"
  shows "(pad_nat a 2 < pad_nat b 2) = (a < b)"
proof -
  have d: "a div 10 < 10" "a mod 10 < 10" "b div 10 < 10" "b mod 10 < 10"
    using assms by simp_all
  have "(pad_nat a 2 < pad_nat b 2) =
          (a div 10 < b div 10 \<or> a div 10 = b div 10 \<and> a mod 10 < b mod 10)"
    by (simp add: pad_nat2 assms digit_char_less digit_char_eq d)
  also have "\<dots> = (a < b)" by (rule lex_divmod) simp
  finally show ?thesis .
qed

lemma pad2_eq:
  assumes "a < 100" "b < 100"
  shows "(pad_nat a 2 = pad_nat b 2) = (a = b)"
proof -
  have d: "a div 10 < 10" "a mod 10 < 10" "b div 10 < 10" "b mod 10 < 10"
    using assms by simp_all
  have "(pad_nat a 2 = pad_nat b 2) = (a div 10 = b div 10 \<and> a mod 10 = b mod 10)"
    by (simp add: pad_nat2 assms digit_char_eq d)
  also have "\<dots> = (a = b)" by (rule eq_divmod)
  finally show ?thesis .
qed

lemma pad2_length: "a < 100 \<Longrightarrow> length (pad_nat a 2) = 2"
  by (simp add: pad_nat2)

lemma digits_lt10: "n < 10 \<Longrightarrow> digits n = [digit_char n]"
  by (simp add: digits.simps [of n])

lemma digits_lt100:
  assumes "10 \<le> n" "n < 100"
  shows "digits n = [digit_char (n div 10), digit_char (n mod 10)]"
proof -
  from assms have "n div 10 < 10" by simp
  then have "digits (n div 10) = [digit_char (n div 10)]" by (rule digits_lt10)
  with assms show ?thesis by (simp add: digits.simps [of n])
qed

lemma digits_lt1000:
  assumes "100 \<le> n" "n < 1000"
  shows "digits n = [digit_char (n div 100), digit_char (n div 10 mod 10), digit_char (n mod 10)]"
proof -
  from assms have "10 \<le> n div 10" "n div 10 < 100" by simp_all
  then have "digits (n div 10) = [digit_char (n div 10 div 10), digit_char (n div 10 mod 10)]"
    by (rule digits_lt100)
  moreover have "n div 10 div 10 = n div 100" by (simp add: div_mult2_eq [symmetric])
  ultimately show ?thesis using assms by (simp add: digits.simps [of n])
qed

lemma digits_lt10000:
  assumes "1000 \<le> n" "n < 10000"
  shows "digits n = [digit_char (n div 1000), digit_char (n div 100 mod 10),
                     digit_char (n div 10 mod 10), digit_char (n mod 10)]"
proof -
  from assms have "100 \<le> n div 10" "n div 10 < 1000" by simp_all
  then have "digits (n div 10) = [digit_char (n div 10 div 100), digit_char (n div 10 div 10 mod 10),
                                  digit_char (n div 10 mod 10)]"
    by (rule digits_lt1000)
  moreover have "n div 10 div 100 = n div 1000" "n div 10 div 10 = n div 100"
    by (simp_all add: div_mult2_eq [symmetric])
  ultimately show ?thesis using assms by (simp add: digits.simps [of n])
qed

lemma pad_nat4:
  assumes "n < 10000"
  shows "pad_nat n 4 = [digit_char (n div 1000), digit_char (n div 100 mod 10),
                          digit_char (n div 10 mod 10), digit_char (n mod 10)]"
proof -
  have r3: "replicate 3 x = [x, x, x]" for x :: char by (simp add: numeral_3_eq_3)
  have r2: "replicate 2 x = [x, x]" for x :: char by (simp add: numeral_2_eq_2)
  consider "n < 10" | "10 \<le> n" "n < 100" | "100 \<le> n" "n < 1000" | "1000 \<le> n"
    by linarith
  then show ?thesis
  proof cases
    case 1
    then show ?thesis
      by (simp add: pad_nat_def digits_lt10 digit_char_0 [symmetric] r3)
  next
    case 2
    then show ?thesis
      by (simp add: pad_nat_def digits_lt100 digit_char_0 [symmetric] r2)
  next
    case 3
    then show ?thesis
      by (simp add: pad_nat_def digits_lt1000 digit_char_0 [symmetric])
  next
    case 4
    with assms show ?thesis
      by (simp add: pad_nat_def digits_lt10000)
  qed
qed

lemma pad_nat4_split:
  assumes "n < 10000"
  shows "pad_nat n 4 = pad_nat (n div 100) 2 @ pad_nat (n mod 100) 2"
proof -
  have a: "n div 100 div 10 = n div 1000" by (simp add: div_mult2_eq [symmetric])
  have m: "n mod 100 = 10 * (n div 10 mod 10) + n mod 10"
    using mod_mult2_eq [of n 10 10] by simp
  have b: "n mod 100 div 10 = n div 10 mod 10" unfolding m by simp
  have c: "n mod 100 mod 10 = n mod 10" unfolding m by simp
  have h: "n div 100 < 100" "n mod 100 < 100" using assms by simp_all
  show ?thesis
    by (simp add: pad_nat4 [OF assms] pad_nat2 [OF h(1)] pad_nat2 [OF h(2)] a b c)
qed

lemma pad4_length: "a < 10000 \<Longrightarrow> length (pad_nat a 4) = 4"
  by (simp add: pad_nat4)

lemma pad4_less:
  assumes "a < 10000" "b < 10000"
  shows "(pad_nat a 4 < pad_nat b 4) = (a < b)"
proof -
  have h: "a div 100 < 100" "a mod 100 < 100" "b div 100 < 100" "b mod 100 < 100"
    using assms by simp_all
  have l: "length (pad_nat (a div 100) 2) = length (pad_nat (b div 100) 2)"
    by (simp add: pad2_length h)
  have "(pad_nat a 4 < pad_nat b 4) =
          (a div 100 < b div 100 \<or> a div 100 = b div 100 \<and> a mod 100 < b mod 100)"
    unfolding pad_nat4_split [OF assms(1)] pad_nat4_split [OF assms(2)]
      append_less_iff [OF l]
    by (simp only: pad2_less [OF h(1) h(3)] pad2_eq [OF h(1) h(3)] pad2_less [OF h(2) h(4)])
  also have "\<dots> = (a < b)" by (rule lex_divmod) simp
  finally show ?thesis .
qed

lemma pad4_eq:
  assumes "a < 10000" "b < 10000"
  shows "(pad_nat a 4 = pad_nat b 4) = (a = b)"
proof -
  have h: "a div 100 < 100" "a mod 100 < 100" "b div 100 < 100" "b mod 100 < 100"
    using assms by simp_all
  have l: "length (pad_nat (a div 100) 2) = length (pad_nat (b div 100) 2)"
    by (simp add: pad2_length h)
  have "(pad_nat a 4 = pad_nat b 4) = (a div 100 = b div 100 \<and> a mod 100 = b mod 100)"
    unfolding pad_nat4_split [OF assms(1)] pad_nat4_split [OF assms(2)]
    using l by (simp add: pad2_eq h)
  also have "\<dots> = (a = b)" by (rule eq_divmod)
  finally show ?thesis .
qed


lemma appendInt_nonneg: "0 \<le> x \<Longrightarrow> appendInt x w = pad_nat (nat x) w"
  by (simp add: appendInt_def)

subsection \<open>The calendar\<close>

lemma days_in_month_bounds: "28 \<le> days_in_month y m \<and> days_in_month y m \<le> 31"
  by (simp add: days_in_month_def)

lemma next_day_valid: "valid_date dt \<Longrightarrow> valid_date (next_day dt)"
proof (cases dt)
  case (fields y m d)
  assume "valid_date dt"
  with fields days_in_month_bounds [of y "m + 1"] days_in_month_bounds [of "y + 1" 1]
  show ?thesis by (auto simp: valid_date_def)
qed

lemma prev_day_valid: "valid_date dt \<Longrightarrow> valid_date (prev_day dt)"
proof (cases dt)
  case (fields y m d)
  assume "valid_date dt"
  with fields have v: "1 \<le> m" "m \<le> 12" "1 \<le> d" "d \<le> days_in_month y m"
    by (simp_all add: valid_date_def)
  consider "1 < d" | "d = 1" "1 < m" | "d = 1" "m = 1" using v by linarith
  then show ?thesis
  proof cases
    case 1
    with v fields show ?thesis by (simp add: valid_date_def) arith
  next
    case 2
    with v fields days_in_month_bounds [of y "m - 1"] show ?thesis
      by (simp add: valid_date_def) arith
  next
    case 3
    have "days_in_month (y - 1) 12 = 31" by (simp add: days_in_month_def)
    with 3 fields show ?thesis by (simp add: valid_date_def)
  qed
qed

lemma next_day_greater: "dt < next_day dt"
  by (cases dt) (auto simp: less_prod_def)

lemma prev_day_less: "prev_day dt < dt"
  by (cases dt) (auto simp: less_prod_def)

lemma date_of_days_nat: "date_of_days (int n) = (next_day ^^ n) (1970, 1, 1)"
  by (simp add: date_of_days_def)

lemma date_of_days_neg: "date_of_days (- int n) = (prev_day ^^ n) (1970, 1, 1)"
  by (cases n) (simp_all add: date_of_days_def del: of_nat_Suc)

lemma date_of_days_valid: "valid_date (date_of_days n)"
proof -
  have v0: "valid_date (1970, 1, 1)" by (simp add: valid_date_def days_in_month_def)
  have up: "valid_date ((next_day ^^ k) (1970, 1, 1))" for k
  proof (induction k)
    case 0
    show ?case using v0 by simp
  next
    case (Suc k)
    then show ?case by (simp add: next_day_valid)
  qed
  have down: "valid_date ((prev_day ^^ k) (1970, 1, 1))" for k
  proof (induction k)
    case 0
    show ?case using v0 by simp
  next
    case (Suc k)
    then show ?case by (simp add: prev_day_valid)
  qed
  show ?thesis
    using up [of "nat n"] down [of "nat (- n)"] by (simp add: date_of_days_def)
qed

lemma date_up_mono: "a < b \<Longrightarrow> (next_day ^^ a) (1970, 1, 1) < (next_day ^^ b) (1970, 1, 1)"
  by (rule lift_Suc_mono_less) (simp add: next_day_greater)

lemma date_down_mono: "a < b \<Longrightarrow> (prev_day ^^ b) (1970, 1, 1) < (prev_day ^^ a) (1970, 1, 1)"
proof (induction b)
  case 0
  then show ?case by simp
next
  case (Suc b)
  have step: "(prev_day ^^ Suc b) (1970, 1, 1) < (prev_day ^^ b) (1970, 1, 1)"
    by (simp add: prev_day_less)
  show ?case
  proof (cases "a = b")
    case True
    with step show ?thesis by simp
  next
    case False
    with Suc.prems have "a < b" by simp
    from Suc.IH [OF this] step show ?thesis by (rule less_trans [rotated])
  qed
qed

lemma date_of_days_mono:
  assumes "n1 < n2"
  shows "date_of_days n1 < date_of_days n2"
proof -
  consider "0 \<le> n1" | "n2 \<le> 0" | "n1 < 0" "0 < n2" using assms by linarith
  then show ?thesis
  proof cases
    case 1
    with assms have "nat n1 < nat n2" by simp
    from date_up_mono [OF this] 1 assms show ?thesis by (simp add: date_of_days_def)
  next
    case 2
    with assms have lt: "nat (- n2) < nat (- n1)" by simp
    have e1: "date_of_days n1 = (prev_day ^^ nat (- n1)) (1970, 1, 1)"
      using date_of_days_neg [of "nat (- n1)"] 2 assms by simp
    have e2: "date_of_days n2 = (prev_day ^^ nat (- n2)) (1970, 1, 1)"
      using date_of_days_neg [of "nat (- n2)"] 2 by simp
    from date_down_mono [OF lt] show ?thesis by (simp only: e1 e2)
  next
    case 3
    have e1: "date_of_days n1 = (prev_day ^^ nat (- n1)) (1970, 1, 1)"
      using 3 by (simp add: date_of_days_def)
    have e2: "date_of_days n2 = (next_day ^^ nat n2) (1970, 1, 1)"
      using 3 by (simp add: date_of_days_def)
    have a: "(prev_day ^^ nat (- n1)) (1970, 1, 1) < (prev_day ^^ 0) (1970, 1, 1)"
      by (rule date_down_mono) (use 3 in simp)
    have b: "(next_day ^^ 0) (1970, 1, 1) < (next_day ^^ nat n2) (1970, 1, 1)"
      by (rule date_up_mono) (use 3 in simp)
    from a b show ?thesis unfolding e1 e2 by simp
  qed
qed

lemma wall_year_mono: "w1 \<le> w2 \<Longrightarrow> wall_year w1 \<le> wall_year w2"
proof -
  assume "w1 \<le> w2"
  then have "w1 div 86400 \<le> w2 div 86400" by (simp add: zdiv_mono1)
  then have "date_of_days (w1 div 86400) \<le> date_of_days (w2 div 86400)"
    using date_of_days_mono [of "w1 div 86400" "w2 div 86400"] by (auto simp: le_less)
  then show ?thesis
    unfolding wall_year_def by (auto simp: less_eq_prod_def)
qed

subsection \<open>The order of the stamps\<close>

lemma stamp_fields_less:
  assumes y: "y < 10000" "y' < 10000"
    and f: "m < 100" "d < 100" "h < 100" "mi < 100" "s < 100"
    and f': "m' < 100" "d' < 100" "h' < 100" "mi' < 100" "s' < 100"
  shows "(pad_nat y 4 @ pad_nat m 2 @ pad_nat d 2 @ ''_'' @
            pad_nat h 2 @ pad_nat mi 2 @ pad_nat s 2
          < pad_nat y' 4 @ pad_nat m' 2 @ pad_nat d' 2 @ ''_'' @
            pad_nat h' 2 @ pad_nat mi' 2 @ pad_nat s' 2)
         = ((y, m, d, h, mi, s) < (y', m', d', h', mi', s'))"
proof -
  have ly: "length (pad_nat y 4) = length (pad_nat y' 4)" by (simp add: pad4_length y)
  have l2: "a < 100 \<Longrightarrow> b < 100 \<Longrightarrow> length (pad_nat a 2) = length (pad_nat b 2)" for a b
    by (simp add: pad2_length)
  have us: "(''_'' @ u < ''_'' @ v) = (u < v)" for u v :: string
    by (rule append_same_less)
  have "(pad_nat y 4 @ pad_nat m 2 @ pad_nat d 2 @ ''_'' @
            pad_nat h 2 @ pad_nat mi 2 @ pad_nat s 2
          < pad_nat y' 4 @ pad_nat m' 2 @ pad_nat d' 2 @ ''_'' @
            pad_nat h' 2 @ pad_nat mi' 2 @ pad_nat s' 2)
      = (y < y' \<or> y = y' \<and> (m < m' \<or> m = m' \<and> (d < d' \<or> d = d' \<and>
          (h < h' \<or> h = h' \<and> (mi < mi' \<or> mi = mi' \<and> s < s')))))"
    unfolding append_less_iff [OF ly]
      append_less_iff [OF l2 [OF f(1) f'(1)]]
      append_less_iff [OF l2 [OF f(2) f'(2)]]
      us
      append_less_iff [OF l2 [OF f(3) f'(3)]]
      append_less_iff [OF l2 [OF f(4) f'(4)]]
    by (simp only: pad4_less [OF y] pad4_eq [OF y]
         pad2_less [OF f(1) f'(1)] pad2_eq [OF f(1) f'(1)]
         pad2_less [OF f(2) f'(2)] pad2_eq [OF f(2) f'(2)]
         pad2_less [OF f(3) f'(3)] pad2_eq [OF f(3) f'(3)]
         pad2_less [OF f(4) f'(4)] pad2_eq [OF f(4) f'(4)]
         pad2_less [OF f(5) f'(5)])
  also have "\<dots> = ((y, m, d, h, mi, s) < (y', m', d', h', mi', s'))"
    by (auto simp: less_prod_def')
  finally show ?thesis .
qed


lemma clock_fields_less:
  fixes s1 s2 :: nat
  assumes "s1 < s2"
  shows "(s1 div 3600, s1 mod 3600 div 60, s1 mod 60) < (s2 div 3600, s2 mod 3600 div 60, s2 mod 60)"
proof -
  have m2: "s mod 3600 mod 60 = s mod 60" for s :: nat
    by (rule mod_mod_cancel) simp
  from assms have b: "s1 div 3600 < s2 div 3600 \<or>
      s1 div 3600 = s2 div 3600 \<and> s1 mod 3600 < s2 mod 3600"
    using lex_divmod [of 3600 s1 s2] by simp
  have c: "s1 mod 3600 < s2 mod 3600 \<Longrightarrow>
      s1 mod 3600 div 60 < s2 mod 3600 div 60 \<or>
      s1 mod 3600 div 60 = s2 mod 3600 div 60 \<and> s1 mod 60 < s2 mod 60"
    using lex_divmod [of 60 "s1 mod 3600" "s2 mod 3600"] by (simp add: m2)
  from b c show ?thesis by (auto simp: less_prod_def')
qed

text \<open>The second of the day, and the stamp in terms of it.\<close>

lemma clock_fields:
  fixes w :: int
  defines "s \<equiv> nat (w mod 86400)"
  shows "appendInt (w mod 86400 div 3600) 2 = pad_nat (s div 3600) 2"
    and "appendInt (w mod 3600 div 60) 2 = pad_nat (s mod 3600 div 60) 2"
    and "appendInt (w mod 60) 2 = pad_nat (s mod 60) 2"
    and "s < 86400"
proof -
  have p: "0 \<le> w mod 86400" "w mod 86400 < 86400" by simp_all
  have m1: "w mod 86400 mod 3600 = w mod 3600" by (rule mod_mod_cancel) simp
  have m2: "w mod 86400 mod 60 = w mod 60" by (rule mod_mod_cancel) simp
  have a: "nat (w mod 86400 div 3600) = s div 3600"
    unfolding s_def using p by (simp add: nat_div_distrib)
  have "nat (w mod 3600) = s mod 3600"
    unfolding s_def using p m1 by (metis nat_mod_distrib nat_numeral zero_le_numeral)
  then have b: "nat (w mod 3600 div 60) = s mod 3600 div 60"
    by (simp add: nat_div_distrib)
  have c: "nat (w mod 60) = s mod 60"
    unfolding s_def using p m2 by (metis nat_mod_distrib nat_numeral zero_le_numeral)
  have n: "0 \<le> w mod 86400 div 3600" "0 \<le> w mod 3600 div 60" "0 \<le> w mod 60"
    by (simp_all add: pos_imp_zdiv_nonneg_iff)
  show "appendInt (w mod 86400 div 3600) 2 = pad_nat (s div 3600) 2"
    by (simp only: appendInt_nonneg [OF n(1)] a)
  show "appendInt (w mod 3600 div 60) 2 = pad_nat (s mod 3600 div 60) 2"
    by (simp only: appendInt_nonneg [OF n(2)] b)
  show "appendInt (w mod 60) 2 = pad_nat (s mod 60) 2"
    by (simp only: appendInt_nonneg [OF n(3)] c)
  show "s < 86400" unfolding s_def using p by simp
qed

lemma format_stamp_fields:
  assumes "date_of_days (w div 86400) = (y, m, d)" "0 \<le> y"
  shows "format_stamp w =
           pad_nat (nat y) 4 @ pad_nat m 2 @ pad_nat d 2 @ ''_'' @
           pad_nat (nat (w mod 86400) div 3600) 2 @
           pad_nat (nat (w mod 86400) mod 3600 div 60) 2 @
           pad_nat (nat (w mod 86400) mod 60) 2"
  unfolding format_stamp_def assms(1) prod.case clock_fields(1-3)
  by (simp add: appendInt_nonneg assms(2))

lemma field_bounds:
  fixes s :: nat
  assumes "s < 86400"
  shows "s div 3600 < 100" "s mod 3600 div 60 < 100" "s mod 60 < 100"
proof -
  have "s mod 3600 < 3600" "s mod 60 < 60" by simp_all
  with assms show "s div 3600 < 100" "s mod 3600 div 60 < 100" "s mod 60 < 100"
    by (simp_all add: less_mult_imp_div_less)
qed

lemma date_bounds:
  assumes "date_of_days n = (y, m, d)"
  shows "m < 100" "d < 100"
  using date_of_days_valid [of n] assms days_in_month_bounds [of y m]
  by (auto simp: valid_date_def)

lemma format_stamp_less:
  assumes "w1 < w2" "0 \<le> wall_year w1" "wall_year w2 < 10000"
  shows "format_stamp w1 < format_stamp w2"
proof -
  obtain y1 m1 d1 where dt1: "date_of_days (w1 div 86400) = (y1, m1, d1)"
    by (cases "date_of_days (w1 div 86400)")
  obtain y2 m2 d2 where dt2: "date_of_days (w2 div 86400) = (y2, m2, d2)"
    by (cases "date_of_days (w2 div 86400)")
  define s1 where "s1 = nat (w1 mod 86400)"
  define s2 where "s2 = nat (w2 mod 86400)"
  have sb: "s1 < 86400" "s2 < 86400" unfolding s1_def s2_def by (rule clock_fields(4))+
  from assms(1) have le: "w1 div 86400 \<le> w2 div 86400" by (simp add: zdiv_mono1)
  have y1: "0 \<le> y1" using assms(2) dt1 by (simp add: wall_year_def)
  have y2: "y2 < 10000" using assms(3) dt2 by (simp add: wall_year_def)
  have dle: "(y1, m1, d1) \<le> (y2, m2, d2)"
    using date_of_days_mono [of "w1 div 86400" "w2 div 86400"] le dt1 dt2
    by (cases "w1 div 86400 = w2 div 86400") (auto simp: le_less)
  then have yle: "y1 \<le> y2" by (auto simp: less_eq_prod_def)
  have lt: "(nat y1, m1, d1, s1 div 3600, s1 mod 3600 div 60, s1 mod 60)
          < (nat y2, m2, d2, s2 div 3600, s2 mod 3600 div 60, s2 mod 60)"
  proof (cases "w1 div 86400 = w2 div 86400")
    case True
    with dt1 dt2 have eq: "y1 = y2" "m1 = m2" "d1 = d2" by simp_all
    have "w1 = 86400 * (w1 div 86400) + w1 mod 86400" "w2 = 86400 * (w2 div 86400) + w2 mod 86400"
      by simp_all
    with True assms(1) have "w1 mod 86400 < w2 mod 86400" by linarith
    then have "s1 < s2" unfolding s1_def s2_def by simp
    from clock_fields_less [OF this] eq show ?thesis by (simp add: less_prod_def')
  next
    case False
    with le have "w1 div 86400 < w2 div 86400" by simp
    from date_of_days_mono [OF this] dt1 dt2 have "(y1, m1, d1) < (y2, m2, d2)" by simp
    with y1 show ?thesis by (auto simp: less_prod_def')
  qed
  have n1: "nat y1 < 10000" and n2: "nat y2 < 10000" using y1 y2 yle by simp_all
  have y2': "0 \<le> y2" using y1 yle by simp
  show ?thesis
    unfolding format_stamp_fields [OF dt1 y1] format_stamp_fields [OF dt2 y2']
    unfolding s1_def [symmetric] s2_def [symmetric]
    unfolding stamp_fields_less [OF n1 n2 date_bounds [OF dt1] field_bounds [OF sb(1)]
        date_bounds [OF dt2] field_bounds [OF sb(2)]]
    by (rule lt)
qed

lemma format_stamp_length:
  assumes "0 \<le> wall_year w" "wall_year w < 10000"
  shows "length (format_stamp w) = 15"
proof -
  obtain y m d where dt: "date_of_days (w div 86400) = (y, m, d)"
    by (cases "date_of_days (w div 86400)")
  have y: "0 \<le> y" "nat y < 10000" using assms dt by (simp_all add: wall_year_def)
  have sb: "nat (w mod 86400) < 86400" by (rule clock_fields(4))
  show ?thesis
    unfolding format_stamp_fields [OF dt y(1)]
    by (simp add: pad4_length [OF y(2)] pad2_length date_bounds [OF dt] field_bounds [OF sb])
qed

subsection \<open>File names, and concrete stamps\<close>

lemma filename_less:
  assumes "wall_seconds loc t1 < wall_seconds loc t2"
    and "0 \<le> wall_year (wall_seconds loc t1)" and "wall_year (wall_seconds loc t2) < 10000"
  shows "segment_filename r loc t1 < segment_filename r loc t2"
proof -
  from wall_year_mono [of "wall_seconds loc t1" "wall_seconds loc t2"] assms
  have y1: "wall_year (wall_seconds loc t1) < 10000" and y2: "0 \<le> wall_year (wall_seconds loc t2)"
    by simp_all
  have l: "length (format_stamp (wall_seconds loc t1)) = length (format_stamp (wall_seconds loc t2))"
    by (simp add: format_stamp_length y1 y2 assms(2,3))
  have s: "format_stamp (wall_seconds loc t1) < format_stamp (wall_seconds loc t2)"
    by (rule format_stamp_less [OF assms])
  have "(safe_name (cameraName r) @ ''_'') @ format_stamp (wall_seconds loc t1) @ ''.'' @ Format (config r)
      < (safe_name (cameraName r) @ ''_'') @ format_stamp (wall_seconds loc t2) @ ''.'' @ Format (config r)"
    unfolding append_same_less append_less_iff [OF l] using s by simp
  then show ?thesis by (simp add: segment_filename_def)
qed

lemma filename_same:
  "wall_seconds loc t1 = wall_seconds loc t2 \<Longrightarrow> segment_filename r loc t1 = segment_filename r loc t2"
  by (simp add: segment_filename_def)

lemma char_of_eqI: "of_char c = (n::nat) \<Longrightarrow> char_of n = c"
  by auto

lemma digit_chars:
  "digit_char 0 = CHR ''0''" "digit_char 1 = CHR ''1''" "digit_char 2 = CHR ''2''"
  "digit_char 3 = CHR ''3''" "digit_char 4 = CHR ''4''" "digit_char 5 = CHR ''5''"
  "digit_char 6 = CHR ''6''" "digit_char 7 = CHR ''7''" "digit_char 8 = CHR ''8''"
  "digit_char 9 = CHR ''9''"
  unfolding digit_char_def by (rule char_of_eqI, simp)+

lemma digit_char_Suc_0: "digit_char (Suc 0) = CHR ''1''"
  using digit_chars(2) by simp

lemma date_0: "date_of_days 0 = (1970, 1, 1)"
  by (simp add: date_of_days_def)

lemma date_1: "date_of_days 1 = (1970, 1, 2)"
  by (simp add: date_of_days_def days_in_month_def)

lemma stamp_9000: "format_stamp 9000 = ''19700101_023000''"
  by (simp add: format_stamp_fields [of _ 1970 1 1] date_0 pad_nat4 pad_nat2 digit_chars digit_char_Suc_0)

lemma stamp_8100: "format_stamp 8100 = ''19700101_021500''"
  by (simp add: format_stamp_fields [of _ 1970 1 1] date_0 pad_nat4 pad_nat2 digit_chars digit_char_Suc_0)

lemma name_a: "segment_filename rec0 zone_fall_back 1800 = ''Cam_1_19700101_023000.mp4''"
proof -
  have "wall_seconds zone_fall_back 1800 = 9000"
    by (simp add: wall_seconds_def zone_fall_back_def)
  then show ?thesis
    by (simp add: segment_filename_def stamp_9000 rec0_def New_def safe_name_def cfg0_def)
qed

lemma name_b: "segment_filename rec0 zone_fall_back 4500 = ''Cam_1_19700101_021500.mp4''"
proof -
  have "wall_seconds zone_fall_back 4500 = 8100"
    by (simp add: wall_seconds_def zone_fall_back_def)
  then show ?thesis
    by (simp add: segment_filename_def stamp_8100 rec0_def New_def safe_name_def cfg0_def)
qed


text \<open>
  C5, as the code has it. The stamp in a file name is the local wall clock: the instant
  plus the offset of local time from UTC at that instant. For two segments of one
  recorder made at local times in the years 0 to 9999, where the year has its four
  digits, the lexical order of the file names is the order of the two wall-clock
  readings. So for creation times \<open>t1 < t2\<close> the names are in the order of creation
  whenever the wall clock reads later at \<open>t2\<close> than at \<open>t1\<close>, that is, whenever local time was
  not set back between them by as much as the time that lies between them.
\<close>

theorem filename_order:
  assumes "0 \<le> wall_year (wall_seconds loc t1)" and "wall_year (wall_seconds loc t1) < 10000"
    and "0 \<le> wall_year (wall_seconds loc t2)" and "wall_year (wall_seconds loc t2) < 10000"
  shows "(segment_filename r loc t1 < segment_filename r loc t2) = (t1 + loc t1 < t2 + loc t2) \<and>
         (t1 < t2 \<and> loc t1 - loc t2 < t2 - t1 \<longrightarrow>
            segment_filename r loc t1 < segment_filename r loc t2)"
proof -
  have iff: "(segment_filename r loc t1 < segment_filename r loc t2) = (t1 + loc t1 < t2 + loc t2)"
  proof (cases "wall_seconds loc t1" "wall_seconds loc t2" rule: linorder_cases)
    case less
    from filename_less [OF less assms(1,4)] less show ?thesis
      by (simp add: wall_seconds_def)
  next
    case equal
    from filename_same [OF equal, of r] equal show ?thesis
      by (simp add: wall_seconds_def)
  next
    case greater
    from filename_less [OF greater assms(3,2), of r]
    have "\<not> segment_filename r loc t1 < segment_filename r loc t2" by simp
    with greater show ?thesis by (simp add: wall_seconds_def)
  qed
  then show ?thesis by auto
qed

theorem filename_order_witness:
  "wall_year (wall_seconds zone_fall_back 0) = 1970 \<and>
   wall_year (wall_seconds zone_fall_back 86400) = 1970 \<and>
   (0 :: Time) < 86400 \<and> zone_fall_back 0 - zone_fall_back 86400 < 86400 - 0 \<and>
   zone_fall_back 86400 < zone_fall_back 0 \<and>
   segment_filename rec0 zone_fall_back 0 < segment_filename rec0 zone_fall_back 86400"
proof -
  have w1: "wall_seconds zone_fall_back 0 = 7200" and w2: "wall_seconds zone_fall_back 86400 = 90000"
    by (simp_all add: wall_seconds_def zone_fall_back_def)
  have y1: "wall_year (wall_seconds zone_fall_back 0) = 1970"
    unfolding w1 by (simp add: wall_year_def date_0)
  have y2: "wall_year (wall_seconds zone_fall_back 86400) = 1970"
    unfolding w2 by (simp add: wall_year_def date_1)
  have h1: "0 \<le> wall_year (wall_seconds zone_fall_back 0)" unfolding y1 by simp
  have h2: "wall_year (wall_seconds zone_fall_back 0) < 10000" unfolding y1 by simp
  have h3: "0 \<le> wall_year (wall_seconds zone_fall_back 86400)" unfolding y2 by simp
  have h4: "wall_year (wall_seconds zone_fall_back 86400) < 10000" unfolding y2 by simp
  have a: "(0 :: Time) < 86400" by simp
  have b: "zone_fall_back 0 - zone_fall_back 86400 < 86400 - 0"
    by (simp add: zone_fall_back_def)
  have c: "zone_fall_back 86400 < zone_fall_back 0" by (simp add: zone_fall_back_def)
  from filename_order [OF h1 h2 h3 h4, of rec0] a b
  have "segment_filename rec0 zone_fall_back 0 < segment_filename rec0 zone_fall_back 86400"
    by blast
  with y1 y2 a b c show ?thesis by blast
qed


subsection \<open>A wall clock that is set back\<close>

text \<open>
  The specification words the claim for any two creation times. Where the
  zone sets its clocks back by an hour (as at the end of daylight saving time), a segment
  made 45 minutes after another gets the lexically smaller name.
\<close>

theorem clock_set_back_counterexample:
  "(1800 :: Time) < 4500 \<and>
   segment_filename rec0 zone_fall_back 1800 = ''Cam_1_19700101_023000.mp4'' \<and>
   segment_filename rec0 zone_fall_back 4500 = ''Cam_1_19700101_021500.mp4'' \<and>
   segment_filename rec0 zone_fall_back 4500 < segment_filename rec0 zone_fall_back 1800"
  unfolding name_a name_b by simp

end
